theory Spec2Isabelle
  imports Complex_Main "HOL-Library.Log_Nat" "HOL-Library.Word"
begin

section \<open>Python floats\<close>

text \<open>
  The accumulator registers of the workers are Python floats: IEEE 754 binary64 values,
  every operation rounded to nearest, ties to even, overflow going to infinity (Python's
  \<^verbatim>\<open>+\<close> and \<^verbatim>\<open>*\<close> on floats do not raise). A finite float is modelled by the
  rational it denotes; the sign of zero is not kept (no operation of the program can
  tell the two zeros apart).
\<close>

datatype py_float = Flt rat | PosInf | NegInf | NaN

text \<open>The binary exponent of a positive rational: \<open>2 powi e \<le> x < 2 powi (e + 1)\<close>.\<close>

definition exponent_of :: "rat \<Rightarrow> int" where
  "exponent_of x =
     (if 1 \<le> x then bitlen \<lfloor>x\<rfloor> - 1 else - bitlen (\<lceil>1 / x\<rceil> - 1))"

text \<open>
  The spacing of the binary64 numbers around \<open>x\<close>: 53 significant bits, and the
  subnormal spacing \<open>2 powi (- 1074)\<close> below the least normal exponent \<open>- 1022\<close>.
\<close>

definition quantum :: "rat \<Rightarrow> rat" where
  "quantum x = 2 powi (max (exponent_of x) (- 1022) - 52)"

definition round_half_even :: "rat \<Rightarrow> int" where
  "round_half_even x =
     (let f = \<lfloor>x\<rfloor>; d = x - of_int f
      in if d < 1 / 2 then f else if 1 / 2 < d then f + 1 else if even f then f else f + 1)"

definition round_mag :: "rat \<Rightarrow> rat" where
  "round_mag x = of_int (round_half_even (x / quantum x)) * quantum x"

definition to_double :: "rat \<Rightarrow> py_float" where
  "to_double x =
     (if x = 0 then Flt 0
      else if 2 ^ 1024 \<le> round_mag \<bar>x\<bar> then (if 0 < x then PosInf else NegInf)
      else Flt (sgn x * round_mag \<bar>x\<bar>))"

fun fadd :: "py_float \<Rightarrow> py_float \<Rightarrow> py_float" where
  "fadd NaN y = NaN"
| "fadd x NaN = NaN"
| "fadd PosInf NegInf = NaN"
| "fadd NegInf PosInf = NaN"
| "fadd PosInf y = PosInf"
| "fadd x PosInf = PosInf"
| "fadd NegInf y = NegInf"
| "fadd x NegInf = NegInf"
| "fadd (Flt x) (Flt y) = to_double (x + y)"

fun fmul :: "py_float \<Rightarrow> py_float \<Rightarrow> py_float" where
  "fmul NaN y = NaN"
| "fmul x NaN = NaN"
| "fmul (Flt x) (Flt y) = to_double (x * y)"
| "fmul (Flt x) PosInf = (if x = 0 then NaN else if 0 < x then PosInf else NegInf)"
| "fmul (Flt x) NegInf = (if x = 0 then NaN else if 0 < x then NegInf else PosInf)"
| "fmul PosInf (Flt y) = (if y = 0 then NaN else if 0 < y then PosInf else NegInf)"
| "fmul NegInf (Flt y) = (if y = 0 then NaN else if 0 < y then NegInf else PosInf)"
| "fmul PosInf PosInf = PosInf"
| "fmul PosInf NegInf = NegInf"
| "fmul NegInf PosInf = NegInf"
| "fmul NegInf NegInf = PosInf"

text \<open>\<open>fgt x y\<close> is Python's \<^verbatim>\<open>x > y\<close>: false as soon as one side is NaN.\<close>

fun fgt :: "py_float \<Rightarrow> py_float \<Rightarrow> bool" where
  "fgt NaN y = False"
| "fgt x NaN = False"
| "fgt (Flt x) (Flt y) = (y < x)"
| "fgt PosInf PosInf = False"
| "fgt PosInf y = True"
| "fgt x PosInf = False"
| "fgt NegInf y = False"
| "fgt x NegInf = True"

fun is_finite :: "py_float \<Rightarrow> bool" where
  "is_finite (Flt x) = True"
| "is_finite x = False"

section \<open>Configuration constants (b.py, c.py, FN.py, finumpy.py)\<close>

definition MEMORY_LIMIT_PERCENT :: rat where
  "MEMORY_LIMIT_PERCENT = 95"

definition BATCH_SIZE :: nat where
  "BATCH_SIZE = 50000"

text \<open>The literals \<^verbatim>\<open>1e300\<close> and \<^verbatim>\<open>1e-150\<close>: the doubles nearest to the decimals.\<close>

definition THRESHOLD :: py_float where
  "THRESHOLD = to_double (10 ^ 300)"

definition SCALE_FACTOR :: py_float where
  "SCALE_FACTOR = to_double (1 / 10 ^ 150)"

definition CHUNK_SIZE_MB :: nat where
  "CHUNK_SIZE_MB = 100"

definition MATRIX_SIZE :: nat where
  "MATRIX_SIZE = 2500"

section \<open>The overflow-safe accumulator\<close>

text \<open>
  One pass through the body of the inner loop of \<^verbatim>\<open>fibonacci_worker_safe\<close> (b.py,
  lines 61 to 68) and \<^verbatim>\<open>fibonacci_worker_real\<close> (c.py, lines 114 to 118), on the two
  registers: the new registers, and whether the rescale branch was taken.
\<close>

type_synonym regs = "py_float \<times> py_float"

definition advance :: "regs \<Rightarrow> regs \<times> bool" where
  "advance r =
     (let a1 = snd r; b1 = fadd (fst r) (snd r)
      in if fgt b1 THRESHOLD
         then ((fmul a1 SCALE_FACTOR, fmul b1 SCALE_FACTOR), True)
         else ((a1, b1), False))"

text \<open>
  The registers after each of the assignments of one pass, in program order: after
  \<^verbatim>\<open>a, b = b, a + b\<close>, and on the rescale branch after \<^verbatim>\<open>a *= SCALE_FACTOR\<close> and
  after \<^verbatim>\<open>b *= SCALE_FACTOR\<close>.
\<close>

definition advance_points :: "regs \<Rightarrow> regs list" where
  "advance_points r =
     (let a1 = snd r; b1 = fadd (fst r) (snd r)
      in if fgt b1 THRESHOLD
         then [(a1, b1), (fmul a1 SCALE_FACTOR, b1), (fmul a1 SCALE_FACTOR, fmul b1 SCALE_FACTOR)]
         else [(a1, b1)])"

definition init_regs :: regs where
  "init_regs = (Flt 1, Flt 1)"

text \<open>The registers after \<open>n\<close> passes from \<^verbatim>\<open>a, b = 1.0, 1.0\<close>.\<close>

fun acc_run :: "nat \<Rightarrow> regs" where
  "acc_run 0 = init_regs"
| "acc_run (Suc n) = fst (advance (acc_run n))"

text \<open>The number of rescale events among the first \<open>n\<close> passes.\<close>

fun rescales :: "nat \<Rightarrow> nat" where
  "rescales 0 = 0"
| "rescales (Suc n) = rescales n + (if snd (advance (acc_run n)) then 1 else 0)"

section \<open>Shared run state\<close>

text \<open>
  The objects the harness creates and hands to the workers and the monitor: the
  \<^verbatim>\<open>multiprocessing.Event\<close>, the \<^verbatim>\<open>c_ulonglong\<close> counters (a store into one keeps
  the low 64 bits) and the two \<^verbatim>\<open>'d'\<close> peak registers. The peak registers only ever
  hold telemetry percentages, which are compared and never computed with, so they are
  modelled by the rationals they denote.
\<close>

record shared =
  stop_event :: bool
  total_counter :: "64 word"
  scale_counter :: "64 word"
  total_bytes :: "64 word"
  max_mem_record :: rat
  max_cpu_record :: rat

definition init_shared :: shared where
  "init_shared =
     \<lparr>stop_event = False, total_counter = 0, scale_counter = 0, total_bytes = 0,
      max_mem_record = 0, max_cpu_record = 0\<rparr>"

datatype py_exception = MemoryError | TypeError

section \<open>The monitor\<close>

text \<open>
  What one pass through the monitor's \<^verbatim>\<open>try\<close> block gets from the telemetry provider:
  the two percentages (CPU first), an exception of class \<^verbatim>\<open>Exception\<close>, or the
  operator's \<^verbatim>\<open>KeyboardInterrupt\<close> (not an \<^verbatim>\<open>Exception\<close>, so it leaves
  \<^verbatim>\<open>memory_monitor\<close>), taken to arrive while the monitor waits for the sample.
\<close>

datatype reading = Reading rat rat | SamplingError | KeyboardInterrupt

datatype monitor_exit = StopObserved | CeilingReached | SamplingFailed | Interrupted | StillPolling

text \<open>
  The monitor's view of the shared state, with two fields that are not variables of the
  program: the memory and CPU percentages the loop body has read so far, in order.
\<close>

record monitor_state = shared +
  mem_seen :: "rat list"
  cpu_seen :: "rat list"

definition init_monitor :: monitor_state where
  "init_monitor =
     \<lparr>stop_event = False, total_counter = 0, scale_counter = 0, total_bytes = 0,
      max_mem_record = 0, max_cpu_record = 0, mem_seen = [], cpu_seen = []\<rparr>"

text \<open>
  The body of the \<^verbatim>\<open>while\<close> loop of \<^verbatim>\<open>memory_monitor\<close> in c.py (lines 32 to 65),
  FN.py (lines 30 to 51) and finumpy.py (lines 45 to 70), which are the same code.
  \<open>None\<close> is falling through to the next test of the loop condition.
\<close>

definition monitor_body :: "reading \<Rightarrow> monitor_state \<Rightarrow> monitor_exit option \<times> monitor_state" where
  "monitor_body r s =
     (case r of
        KeyboardInterrupt \<Rightarrow> (Some Interrupted, s)
      | SamplingError \<Rightarrow> (Some SamplingFailed, s)
      | Reading cpu_percent mem_percent \<Rightarrow>
          (let s0 = s\<lparr>mem_seen := mem_seen s @ [mem_percent],
                       cpu_seen := cpu_seen s @ [cpu_percent]\<rparr>;
               s1 = (if max_mem_record s0 < mem_percent
                     then s0\<lparr>max_mem_record := mem_percent\<rparr> else s0);
               s2 = (if max_cpu_record s1 < cpu_percent
                     then s1\<lparr>max_cpu_record := cpu_percent\<rparr> else s1)
           in if MEMORY_LIMIT_PERCENT \<le> mem_percent
              then (Some CeilingReached, s2\<lparr>stop_event := True\<rparr>)
              else (None, s2)))"

text \<open>
  The body of the loop of \<^verbatim>\<open>memory_monitor\<close> in b.py (lines 26 to 46): memory only.
\<close>

definition monitor_body_b :: "reading \<Rightarrow> monitor_state \<Rightarrow> monitor_exit option \<times> monitor_state" where
  "monitor_body_b r s =
     (case r of
        KeyboardInterrupt \<Rightarrow> (Some Interrupted, s)
      | SamplingError \<Rightarrow> (Some SamplingFailed, s)
      | Reading cpu_percent usage_percent \<Rightarrow>
          (let s0 = s\<lparr>mem_seen := mem_seen s @ [usage_percent]\<rparr>;
               s1 = (if max_mem_record s0 < usage_percent
                     then s0\<lparr>max_mem_record := usage_percent\<rparr> else s0)
           in if MEMORY_LIMIT_PERCENT \<le> usage_percent
              then (Some CeilingReached, s1\<lparr>stop_event := True\<rparr>)
              else (None, s1)))"

text \<open>
  A tick is one test of \<^verbatim>\<open>while not stop_event.is_set()\<close> and the pass it guards:
  whether a worker has set the event since the previous test, and what the telemetry
  provider answers. The loop runs over the ticks the environment supplies;
  \<open>StillPolling\<close> is the monitor still in its loop when they are used up.
\<close>

type_synonym tick = "bool \<times> reading"

fun monitor_loop ::
  "(reading \<Rightarrow> monitor_state \<Rightarrow> monitor_exit option \<times> monitor_state) \<Rightarrow>
   tick list \<Rightarrow> monitor_state \<Rightarrow> monitor_exit \<times> monitor_state" where
  "monitor_loop body [] s = (StillPolling, s)"
| "monitor_loop body ((w, r) # ts) s =
     (if stop_event s \<or> w then (StopObserved, s\<lparr>stop_event := True\<rparr>)
      else (case body r s of
              (Some e, s1) \<Rightarrow> (e, s1)
            | (None, s1) \<Rightarrow> monitor_loop body ts s1))"

definition memory_monitor :: "tick list \<Rightarrow> monitor_state \<Rightarrow> monitor_exit \<times> monitor_state" where
  "memory_monitor = monitor_loop monitor_body"

definition memory_monitor_b :: "tick list \<Rightarrow> monitor_state \<Rightarrow> monitor_exit \<times> monitor_state" where
  "memory_monitor_b = monitor_loop monitor_body_b"

section \<open>The workers\<close>

text \<open>
  What a worker gets from outside: \<open>is_set env t\<close> is the answer of
  \<^verbatim>\<open>stop_event.is_set()\<close> when the worker asks having completed \<open>t\<close> passes of its
  allocating loop, and \<open>alloc_ok env i\<close> tells whether the allocation of pass \<open>i\<close>
  (counted from 0) succeeds; a failing one raises \<^verbatim>\<open>MemoryError\<close>.
\<close>

record env =
  is_set :: "nat \<Rightarrow> bool"
  alloc_ok :: "nat \<Rightarrow> bool"

record 'h wstate =
  reg_a :: py_float
  reg_b :: py_float
  local_added :: nat
  local_scale :: nat
  history :: "'h list"

definition init_wstate :: "'h wstate" where
  "init_wstate = \<lparr>reg_a = Flt 1, reg_b = Flt 1, local_added = 0, local_scale = 0, history = []\<rparr>"

definition accumulate :: "'h wstate \<Rightarrow> 'h wstate" where
  "accumulate s =
     (let (r, rescaled) = advance (reg_a s, reg_b s)
      in s\<lparr>reg_a := fst r, reg_b := snd r,
            local_scale := local_scale s + (if rescaled then 1 else 0)\<rparr>)"

text \<open>
  The \<^verbatim>\<open>for _ in range(BATCH_SIZE)\<close> loop of both arithmetic workers, \<open>k\<close> passes to
  go. \<open>item\<close> is what a pass appends to \<^verbatim>\<open>history\<close>: the register \<^verbatim>\<open>b\<close> in b.py, a
  buffer in c.py. The allocation comes after the accumulator step and the rescale.
\<close>

fun batch :: "('h wstate \<Rightarrow> 'h) \<Rightarrow> nat \<Rightarrow> env \<Rightarrow> 'h wstate \<Rightarrow> py_exception option \<times> 'h wstate" where
  "batch item 0 env s = (None, s)"
| "batch item (Suc k) env s =
     (let s1 = accumulate s
      in if alloc_ok env (length (history s1))
         then batch item k env (s1\<lparr>history := history s1 @ [item s1]\<rparr>)
         else (Some MemoryError, s1))"

text \<open>What a pass of b.py appends: \<^verbatim>\<open>history.append(b)\<close>.\<close>

definition produced :: "py_float wstate \<Rightarrow> py_float" where
  "produced s = reg_b s"

text \<open>
  The \<^verbatim>\<open>while\<close> loop of \<^verbatim>\<open>fibonacci_worker_safe\<close> (b.py, lines 59 to 75). The first
  argument bounds the number of batches; \<open>None\<close> is a loop that has not ended within it.
\<close>

fun loop_safe :: "nat \<Rightarrow> env \<Rightarrow> py_float wstate \<Rightarrow> (py_exception option \<times> py_float wstate) option" where
  "loop_safe 0 env s = None"
| "loop_safe (Suc fuel) env s =
     (if is_set env (length (history s)) then Some (None, s)
      else (case batch produced BATCH_SIZE env s of
              (Some e, s1) \<Rightarrow> Some (Some e, s1)
            | (None, s1) \<Rightarrow>
                (let s2 = s1\<lparr>local_added := local_added s1 + BATCH_SIZE\<rparr>
                 in if is_set env (length (history s2)) then Some (None, s2)
                    else loop_safe fuel env s2)))"

text \<open>A buffer of c.py: its size in bytes and its first byte.\<close>

datatype buffer = Buffer nat nat

definition new_buffer :: "'h wstate \<Rightarrow> buffer" where
  "new_buffer s = Buffer (1024 * 1024) 1"

text \<open>The \<^verbatim>\<open>while\<close> loop of \<^verbatim>\<open>fibonacci_worker_real\<close> (c.py, lines 112 to 124).\<close>

fun loop_real :: "nat \<Rightarrow> env \<Rightarrow> buffer wstate \<Rightarrow> (py_exception option \<times> buffer wstate) option" where
  "loop_real 0 env s = None"
| "loop_real (Suc fuel) env s =
     (if is_set env (length (history s)) then Some (None, s)
      else (case batch new_buffer BATCH_SIZE env s of
              (Some e, s1) \<Rightarrow> Some (Some e, s1)
            | (None, s1) \<Rightarrow> loop_real fuel env (s1\<lparr>local_added := local_added s1 + BATCH_SIZE\<rparr>)))"

text \<open>
  The \<^verbatim>\<open>except MemoryError\<close> and \<^verbatim>\<open>finally\<close> clauses of both arithmetic workers.
\<close>

definition flush :: "py_exception option \<Rightarrow> 'h wstate \<Rightarrow> shared \<Rightarrow> shared" where
  "flush e s sh =
     (let sh1 = (if e = Some MemoryError then sh\<lparr>stop_event := True\<rparr> else sh)
      in sh1\<lparr>total_counter := total_counter sh1 + of_nat (local_added s),
              scale_counter := scale_counter sh1 + of_nat (local_scale s)\<rparr>)"

text \<open>
  The workers return the shared state they leave and, for stating properties, their
  local variables at exit.
\<close>

definition fibonacci_worker_safe :: "nat \<Rightarrow> env \<Rightarrow> shared \<Rightarrow> (shared \<times> py_float wstate) option" where
  "fibonacci_worker_safe fuel env sh =
     (case loop_safe fuel env init_wstate of
        None \<Rightarrow> None
      | Some (e, s) \<Rightarrow> Some (flush e s sh, s))"

definition fibonacci_worker_real :: "nat \<Rightarrow> env \<Rightarrow> shared \<Rightarrow> (shared \<times> buffer wstate) option" where
  "fibonacci_worker_real fuel env sh =
     (case loop_real fuel env init_wstate of
        None \<Rightarrow> None
      | Some (e, s) \<Rightarrow> Some (flush e s sh, s))"

text \<open>
  The dense-compute workers. The matrices do not decide control flow and are left out;
  \<open>stored\<close> is the length of \<^verbatim>\<open>data_store\<close> (finumpy.py) or \<^verbatim>\<open>history\<close> (FN.py).
\<close>

record dstate =
  local_count :: nat
  local_bytes :: nat
  stored :: nat

definition init_dstate :: dstate where
  "init_dstate = \<lparr>local_count = 0, local_bytes = 0, stored = 0\<rparr>"

definition size_per_step :: nat where
  "size_per_step = MATRIX_SIZE * MATRIX_SIZE * 8"

text \<open>The \<^verbatim>\<open>while\<close> loop of \<^verbatim>\<open>matrix_worker\<close> (finumpy.py, lines 89 to 106).\<close>

fun loop_matrix :: "nat \<Rightarrow> env \<Rightarrow> dstate \<Rightarrow> (py_exception option \<times> dstate) option" where
  "loop_matrix 0 env s = None"
| "loop_matrix (Suc fuel) env s =
     (if is_set env (local_count s) then Some (None, s)
      else if alloc_ok env (stored s)
      then (let s1 = s\<lparr>stored := stored s + 1, local_count := local_count s + 1,
                        local_bytes := local_bytes s + size_per_step\<rparr>
            in if local_count s1 mod 10 = 0 \<and> is_set env (local_count s1) then Some (None, s1)
               else loop_matrix fuel env s1)
      else Some (Some MemoryError, s))"

definition matrix_worker :: "nat \<Rightarrow> env \<Rightarrow> shared \<Rightarrow> (shared \<times> dstate) option" where
  "matrix_worker fuel env sh =
     (case loop_matrix fuel env init_dstate of
        None \<Rightarrow> None
      | Some (e, s) \<Rightarrow>
          (let sh1 = (if e = Some MemoryError then sh\<lparr>stop_event := True\<rparr> else sh)
           in Some (sh1\<lparr>total_counter := total_counter sh1 + of_nat (local_count s),
                         total_bytes := total_bytes sh1 + of_nat (local_bytes s)\<rparr>, s)))"

text \<open>The \<^verbatim>\<open>while\<close> loop of \<^verbatim>\<open>numpy_stress_worker\<close> (FN.py, lines 64 to 76).\<close>

fun loop_numpy :: "nat \<Rightarrow> env \<Rightarrow> dstate \<Rightarrow> (py_exception option \<times> dstate) option" where
  "loop_numpy 0 env s = None"
| "loop_numpy (Suc fuel) env s =
     (if is_set env (local_count s) then Some (None, s)
      else if alloc_ok env (stored s)
      then (let s1 = s\<lparr>stored := stored s + 1, local_count := local_count s + 1\<rparr>
            in if is_set env (local_count s1) then Some (None, s1)
               else loop_numpy fuel env s1)
      else Some (Some MemoryError, s))"

definition numpy_stress_worker :: "nat \<Rightarrow> env \<Rightarrow> shared \<Rightarrow> (shared \<times> dstate) option" where
  "numpy_stress_worker fuel env sh =
     (case loop_numpy fuel env init_dstate of
        None \<Rightarrow> None
      | Some (e, s) \<Rightarrow>
          (let sh1 = (if e = Some MemoryError then sh\<lparr>stop_event := True\<rparr> else sh)
           in Some (sh1\<lparr>total_counter := total_counter sh1 + of_nat (local_count s * CHUNK_SIZE_MB)\<rparr>, s)))"

text \<open>
  \<^verbatim>\<open>burn\<close> (d.py, lines 6 to 11): \<^verbatim>\<open>while True\<close>, no stop event, no handler. It
  leaves its loop only by the \<^verbatim>\<open>MemoryError\<close> that ends the process; the result is
  the exception and the number of chunks held then.
\<close>

fun burn :: "nat \<Rightarrow> env \<Rightarrow> nat \<Rightarrow> (py_exception \<times> nat) option" where
  "burn 0 env n = None"
| "burn (Suc fuel) env n =
     (if alloc_ok env n then burn fuel env (n + 1) else Some (MemoryError, n))"

section \<open>The harness\<close>

datatype shared_field = Total_counter | Scale_counter | Total_bytes | Max_mem_record | Max_cpu_record

text \<open>
  What the main process does, in program order. \<open>Joined p\<close> is \<^verbatim>\<open>p.join()\<close>
  returning, which it does once worker \<open>p\<close> has exited; \<open>JoinBlocked p\<close> is the main
  process waiting in \<^verbatim>\<open>p.join()\<close> for a worker that never exits.
\<close>

datatype event =
    Spawn nat
  | MonitorExit monitor_exit
  | StopSet
  | Joined nat
  | JoinBlocked nat
  | Read shared_field

fun join_all :: "(nat \<Rightarrow> bool) \<Rightarrow> nat list \<Rightarrow> event list \<times> bool" where
  "join_all exits [] = ([], True)"
| "join_all exits (p # ps) =
     (if exits p
      then (let (es, done) = join_all exits ps in (Joined p # es, done))
      else ([JoinBlocked p], False))"

text \<open>
  The \<^verbatim>\<open>__main__\<close> block of b.py, c.py, FN.py and finumpy.py, which differ in the
  monitor they call and in the fields the summary prints. \<open>cpu_count\<close> is the answer
  of \<^verbatim>\<open>os.cpu_count()\<close>, which may be \<^verbatim>\<open>None\<close>; \<open>exits p\<close> tells whether worker
  \<open>p\<close> ever exits.
\<close>

definition harness ::
  "(tick list \<Rightarrow> monitor_state \<Rightarrow> monitor_exit \<times> monitor_state) \<Rightarrow> shared_field list \<Rightarrow>
   nat option \<Rightarrow> tick list \<Rightarrow> (nat \<Rightarrow> bool) \<Rightarrow> py_exception + event list" where
  "harness monitor summary cpu_count ticks exits =
     (case cpu_count of
        None \<Rightarrow> Inl TypeError
      | Some n \<Rightarrow>
          (let workers = [0..<n];
               started = map Spawn workers;
               ex = fst (monitor ticks init_monitor)
           in if ex = StillPolling then Inr (started @ [MonitorExit ex])
              else (let interrupt = (if ex = Interrupted then [StopSet] else []);
                        (joins, done) = join_all exits workers
                    in Inr (started @ [MonitorExit ex] @ interrupt @ joins @
                            (if done then map Read summary else [])))))"

definition harness_b :: "nat option \<Rightarrow> tick list \<Rightarrow> (nat \<Rightarrow> bool) \<Rightarrow> py_exception + event list" where
  "harness_b = harness memory_monitor_b
     [Max_mem_record, Max_mem_record, Total_counter, Scale_counter, Total_counter]"

definition harness_c :: "nat option \<Rightarrow> tick list \<Rightarrow> (nat \<Rightarrow> bool) \<Rightarrow> py_exception + event list" where
  "harness_c = harness memory_monitor
     [Max_mem_record, Max_cpu_record, Max_mem_record, Total_counter, Scale_counter, Total_counter]"

definition harness_FN :: "nat option \<Rightarrow> tick list \<Rightarrow> (nat \<Rightarrow> bool) \<Rightarrow> py_exception + event list" where
  "harness_FN = harness memory_monitor
     [Max_cpu_record, Max_mem_record, Total_counter, Total_counter]"

definition harness_finumpy :: "nat option \<Rightarrow> tick list \<Rightarrow> (nat \<Rightarrow> bool) \<Rightarrow> py_exception + event list" where
  "harness_finumpy = harness memory_monitor
     [Max_mem_record, Max_cpu_record, Max_mem_record, Total_counter, Total_bytes, Total_bytes]"

text \<open>The \<^verbatim>\<open>__main__\<close> block of d.py (lines 13 to 15).\<close>

definition harness_d :: "nat option \<Rightarrow> py_exception + event list" where
  "harness_d cpu_count =
     (case cpu_count of
        None \<Rightarrow> Inl TypeError
      | Some n \<Rightarrow> Inr (map Spawn [0..<n * 2]))"

section \<open>Notions used in the statements\<close>

text \<open>Python's \<^verbatim>\<open>x <= y\<close> on floats.\<close>

fun fle :: "py_float \<Rightarrow> py_float \<Rightarrow> bool" where
  "fle NaN y = False"
| "fle x NaN = False"
| "fle (Flt x) (Flt y) = (x \<le> y)"
| "fle NegInf y = True"
| "fle x PosInf = True"
| "fle PosInf y = False"
| "fle x NegInf = False"

text \<open>The registers satisfy \<^verbatim>\<open>0 < a <= b\<close>.\<close>

definition reg_ordered :: "regs \<Rightarrow> bool" where
  "reg_ordered r = (fgt (fst r) (Flt 0) \<and> fle (fst r) (snd r))"

text \<open>The rationals that the two float constants denote.\<close>

definition thr :: rat where
  "thr = 6724873095247260 * 2 ^ 944"

definition scl :: rat where
  "scl = 7371020360979573 / 2 ^ 551"

text \<open>
  The invariant of the accumulator: both registers finite, at least 1, \<^verbatim>\<open>b\<close> between
  \<^verbatim>\<open>a\<close> and three times \<^verbatim>\<open>a\<close>, and not above the threshold.
\<close>

fun acc_inv :: "regs \<Rightarrow> bool" where
  "acc_inv (Flt x, Flt y) = (1 \<le> x \<and> x \<le> y \<and> y \<le> 3 * x \<and> y \<le> thr)"
| "acc_inv r = False"

text \<open>
  The readings (CPU, memory) that a monitor started with the stop event unset gets to
  process, read off the ticks alone: those before the first tick at which a worker has
  set the event or the telemetry call does not return a reading, up to and including the
  first reading whose memory percentage is at or above the ceiling.
\<close>

fun readings_processed :: "tick list \<Rightarrow> (rat \<times> rat) list" where
  "readings_processed [] = []"
| "readings_processed ((w, Reading c m) # ts) =
     (if w then []
      else if MEMORY_LIMIT_PERCENT \<le> m then [(c, m)]
      else (c, m) # readings_processed ts)"
| "readings_processed ((w, r) # ts) = []"

text \<open>Feeding a reading to the monitor: a tick on which no worker has set the event.\<close>

definition feed :: "rat \<times> rat \<Rightarrow> tick" where
  "feed x = (False, Reading (fst x) (snd x))"

text \<open>A peak register holds the running maximum of the percentages read, from 0.0.\<close>

definition peaks_ok :: "monitor_state \<Rightarrow> bool" where
  "peaks_ok s = (max_mem_record s = Max (set (0 # mem_seen s)) \<and>
                 max_cpu_record s = Max (set (0 # cpu_seen s)))"

definition mem_peak_ok :: "monitor_state \<Rightarrow> bool" where
  "mem_peak_ok s = (max_mem_record s = Max (set (0 # mem_seen s)))"

fun is_spawn :: "event \<Rightarrow> bool" where
  "is_spawn (Spawn p) = True"
| "is_spawn e = False"

fun is_read :: "event \<Rightarrow> bool" where
  "is_read (Read f) = True"
| "is_read e = False"

definition spawn_count :: "event list \<Rightarrow> nat" where
  "spawn_count tr = length (filter is_spawn tr)"

text \<open>Concrete inputs for the examples.\<close>

definition ticks_to_ceiling :: "tick list" where
  "ticks_to_ceiling =
     [(False, Reading 40 50), (False, Reading 90 80), (False, Reading 70 96), (False, Reading 99 99)]"

definition ticks_interrupted :: "tick list" where
  "ticks_interrupted = [(False, Reading 40 50), (False, KeyboardInterrupt)]"

definition all_exit :: "nat \<Rightarrow> bool" where
  "all_exit p = True"

definition never_exit :: "nat \<Rightarrow> bool" where
  "never_exit p = False"

text \<open>
  The accumulator variables of a worker are those of the accumulator after \<open>n\<close> passes.
\<close>

definition tracks :: "'h wstate \<Rightarrow> nat \<Rightarrow> bool" where
  "tracks s n = ((reg_a s, reg_b s) = acc_run n \<and> local_scale s = rescales n)"

text \<open>
  The state of an arithmetic worker at the test of its \<^verbatim>\<open>while\<close> condition: whole
  batches only.
\<close>

definition at_head :: "'h wstate \<Rightarrow> bool" where
  "at_head s = (local_added s = length (history s) \<and> BATCH_SIZE dvd length (history s) \<and>
                tracks s (length (history s)))"

definition dense_inv :: "dstate \<Rightarrow> bool" where
  "dense_inv s = (stored s = local_count s)"

definition bytes_inv :: "dstate \<Rightarrow> bool" where
  "bytes_inv s = (local_bytes s = local_count s * size_per_step)"


definition always_set :: "nat \<Rightarrow> bool" where
  "always_set t = True"

definition set_from :: "nat \<Rightarrow> nat \<Rightarrow> bool" where
  "set_from T t = (T \<le> t)"

definition unlimited_memory :: "nat \<Rightarrow> bool" where
  "unlimited_memory i = True"

definition memory_for :: "nat \<Rightarrow> nat \<Rightarrow> bool" where
  "memory_for k i = (i < k)"

section \<open>Properties of the float operations\<close>


lemma exponent_of_ge1:
  assumes "1 \<le> x"
  shows "2 powi exponent_of x \<le> x \<and> x < 2 powi (exponent_of x + 1) \<and> 0 \<le> exponent_of x"
proof -
  define n where "n = \<lfloor>x\<rfloor>"
  have n1: "1 \<le> n" using assms by (simp add: n_def)
  then have n0: "0 < n" by simp
  have b1: "1 \<le> bitlen n" using n0 bitlen_eq_zero_iff[of n] bitlen_nonneg[of n] by linarith
  have e: "exponent_of x = bitlen n - 1" using assms by (simp add: exponent_of_def n_def)
  have lo: "(2::int) ^ nat (bitlen n - 1) \<le> n" and hi: "n < 2 ^ nat (bitlen n)"
    using bitlen_bounds[OF n0] by simp_all
  have "(2::rat) powi (bitlen n - 1) = of_int (2 ^ nat (bitlen n - 1))"
    using b1 by (simp add: power_int_def)
  also have "\<dots> \<le> of_int n" using lo by (simp only: of_int_le_iff)
  also have "\<dots> \<le> x" by (simp add: n_def)
  finally have A: "2 powi exponent_of x \<le> x" by (simp add: e)
  have "x < of_int (n + 1)" unfolding n_def by linarith
  also have "\<dots> \<le> of_int (2 ^ nat (bitlen n))"
    using hi by (simp only: of_int_le_iff)
  also have "\<dots> = (2::rat) powi (bitlen n)"
    using b1 by (simp add: power_int_def)
  finally have B: "x < 2 powi (exponent_of x + 1)" by (simp add: e)
  show ?thesis using A B b1 e by simp
qed

lemma exponent_of_lt1:
  assumes "0 < x" "x < 1"
  shows "2 powi exponent_of x \<le> x \<and> x < 2 powi (exponent_of x + 1) \<and> exponent_of x < 0"
proof -
  define y where "y = \<lceil>1 / x\<rceil>"
  have inv: "1 < 1 / x" using assms by simp
  then have y2: "2 \<le> y" unfolding y_def by linarith
  define k where "k = bitlen (y - 1)"
  have y0: "0 < y - 1" using y2 by simp
  have k1: "1 \<le> k" using y0 bitlen_eq_zero_iff[of "y - 1"] bitlen_nonneg[of "y - 1"]
    unfolding k_def by linarith
  have e: "exponent_of x = - k" using assms by (simp add: exponent_of_def y_def k_def)
  have lo: "(2::int) ^ nat (k - 1) \<le> y - 1" and hi: "y - 1 < 2 ^ nat k"
    using bitlen_bounds[OF y0] by (simp_all add: k_def)
  have "1 / x \<le> of_int y" unfolding y_def by linarith
  also have "\<dots> \<le> of_int (2 ^ nat k)" using hi by (simp only: of_int_le_iff)
  also have "\<dots> = (2::rat) ^ nat k" by simp
  finally have "1 / x \<le> 2 ^ nat k" .
  then have "1 \<le> 2 ^ nat k * x" using assms(1) by (simp add: field_simps)
  then have "1 / 2 ^ nat k \<le> x" by (simp add: field_simps)
  moreover have "(2::rat) powi (- k) = 1 / 2 ^ nat k"
    using k1 by (simp add: power_int_def field_simps)
  ultimately have A: "2 powi exponent_of x \<le> x" by (simp add: e)
  have "(2::rat) ^ nat (k - 1) = of_int (2 ^ nat (k - 1))" by simp
  also have "\<dots> \<le> of_int (y - 1)" using lo by (simp only: of_int_le_iff)
  also have "\<dots> < 1 / x" unfolding y_def by linarith
  finally have "(2::rat) ^ nat (k - 1) < 1 / x" .
  then have "2 ^ nat (k - 1) * x < 1" using assms(1) by (simp add: field_simps)
  then have "x < 1 / 2 ^ nat (k - 1)" by (simp add: field_simps)
  moreover have "(2::rat) powi (- k + 1) = 1 / 2 ^ nat (k - 1)"
  proof (cases "k = 1")
    case True
    then show ?thesis by simp
  next
    case False
    then have "- k + 1 < 0" using k1 by simp
    moreover have "nat (k - 1) = nat (- (- k + 1))" by simp
    ultimately show ?thesis by (simp add: power_int_def field_simps)
  qed
  ultimately have B: "x < 2 powi (exponent_of x + 1)" by (simp add: e)
  show ?thesis using A B k1 e by simp
qed

lemma exponent_of_bounds:
  assumes "0 < x"
  shows "2 powi exponent_of x \<le> x" "x < 2 powi (exponent_of x + 1)"
  using exponent_of_ge1[of x] exponent_of_lt1[of x] assms by (cases "1 \<le> x"; force)+

lemma exponent_of_unique:
  assumes "2 powi e \<le> x" "x < 2 powi (e + 1)"
  shows "exponent_of x = e"
proof -
  have x0: "0 < x" using assms(1) by (smt (verit) zero_less_power_int zero_less_numeral less_le_trans)
  note b = exponent_of_bounds[OF x0]
  have "(2::rat) powi e < 2 powi (exponent_of x + 1)" using assms(1) b(2) by simp
  then have 1: "e < exponent_of x + 1"
    by (smt (verit) power_int_increasing[of _ _ "2::rat"] one_le_numeral not_less)
  have "(2::rat) powi exponent_of x < 2 powi (e + 1)" using assms(2) b(1) by simp
  then have 2: "exponent_of x < e + 1"
    by (smt (verit) power_int_increasing[of _ _ "2::rat"] one_le_numeral not_less)
  show ?thesis using 1 2 by simp
qed

lemma round_half_even_error: "\<bar>of_int (round_half_even x) - x\<bar> \<le> 1 / 2"
  unfolding round_half_even_def Let_def
  by (auto simp: abs_if) linarith+

lemma round_half_even_unique:
  assumes "\<bar>of_int m - x\<bar> < 1 / 2"
  shows "round_half_even x = m"
proof -
  have "\<lfloor>x\<rfloor> = m \<or> \<lfloor>x\<rfloor> = m - 1" using assms by (auto simp: abs_if split: if_splits) linarith+
  then show ?thesis
    using assms unfolding round_half_even_def Let_def
    by (auto simp: abs_if split: if_splits)
qed


lemma round_mag_error:
  assumes "2 powi (- 1022) \<le> x"
  shows "\<bar>round_mag x - x\<bar> \<le> x / 2 ^ 53"
proof -
  have x0: "0 < x"
    using assms by (smt (verit) zero_less_power_int zero_less_numeral less_le_trans)
  define e where "e = exponent_of x"
  note b = exponent_of_bounds[OF x0, folded e_def]
  have "(2::rat) powi (- 1022) < 2 powi (e + 1)" using assms b(2) by simp
  then have e_lo: "- 1022 \<le> e"
    by (smt (verit) power_int_increasing[of _ _ "2::rat"] one_le_numeral not_less)
  define q where "q = (2::rat) powi (e - 52)"
  have q0: "0 < q" by (simp add: q_def)
  have qx: "quantum x = q" using e_lo by (simp add: quantum_def q_def e_def max_def)
  define m where "m = round_half_even (x / q)"
  have "round_mag x - x = (of_int m - x / q) * q"
    using q0 by (simp add: round_mag_def qx m_def field_simps)
  then have "\<bar>round_mag x - x\<bar> = \<bar>of_int m - x / q\<bar> * q"
    using q0 by (simp add: abs_mult)
  also have "\<dots> \<le> (1 / 2) * q"
    using round_half_even_error[of "x / q"] q0 unfolding m_def
    by (intro mult_right_mono) simp_all
  also have "(1 / 2) * q = 2 powi e / 2 ^ 53"
  proof -
    have "(2::rat) powi (e - 52) = 2 powi e * 2 powi (- 52)"
      using power_int_add[of "2::rat" e "- 52"] by simp
    then show ?thesis by (simp add: q_def power_int_minus field_simps)
  qed
  also have "\<dots> \<le> x / 2 ^ 53" using b(1) by (simp add: divide_right_mono)
  finally show ?thesis .
qed

lemma to_double_normal:
  assumes "1 \<le> x" "x \<le> 2 ^ 1023"
  shows "\<exists>y. to_double x = Flt y \<and> x - x / 9007199254740992 \<le> y \<and> y \<le> x + x / 9007199254740992"
proof -
  have "(2::rat) powi (- 1022) \<le> 1" by (simp add: power_int_minus field_simps)
  then have lo: "2 powi (- 1022) \<le> x" using assms(1) by linarith
  have p: "(2::rat) ^ 53 = 9007199254740992" by simp
  note err = round_mag_error[OF lo, unfolded p]
  have e1: "round_mag x \<le> x + x / 9007199254740992" and e2: "x - x / 9007199254740992 \<le> round_mag x"
    using err by linarith+
  have "x + x / 9007199254740992 \<le> 2 ^ 1023 + 2 ^ 1023 / 9007199254740992"
    using assms(2) by (intro add_mono divide_right_mono) simp_all
  also have "\<dots> < (2::rat) ^ 1024" by simp
  finally have "\<not> 2 ^ 1024 \<le> round_mag \<bar>x\<bar>" using assms(1) e1 by simp
  then have "to_double x = Flt (round_mag x)"
    using assms(1) by (simp add: to_double_def)
  then show ?thesis using e1 e2 by blast
qed

lemma THRESHOLD_exp: "exponent_of (10 ^ 300) = 996"
  by (rule exponent_of_unique) simp_all

lemma THRESHOLD_quantum: "quantum (10 ^ 300) = 2 ^ 944"
  unfolding quantum_def THRESHOLD_exp by simp

lemma THRESHOLD_mant: "round_half_even (10 ^ 300 / 2 ^ 944) = 6724873095247260"
  by (rule round_half_even_unique) (simp add: abs_if field_simps)

lemma THRESHOLD_val: "THRESHOLD = Flt (6724873095247260 * 2 ^ 944)"
proof -
  have "round_mag (10 ^ 300) = 6724873095247260 * 2 ^ 944"
    by (simp only: round_mag_def THRESHOLD_quantum THRESHOLD_mant of_int_numeral)
  moreover have "\<not> (2::rat) ^ 1024 \<le> 6724873095247260 * 2 ^ 944" by simp
  moreover have "(10::rat) ^ 300 \<noteq> 0" "\<bar>(10::rat) ^ 300\<bar> = 10 ^ 300" "sgn ((10::rat) ^ 300) = 1"
    by simp_all
  ultimately show ?thesis
    unfolding THRESHOLD_def to_double_def by (simp only: if_False mult_1)
qed


lemma SCALE_FACTOR_exp: "exponent_of (1 / 10 ^ 150) = - 499"
  by (rule exponent_of_unique) (simp_all add: power_int_minus field_simps)

lemma SCALE_FACTOR_quantum: "quantum (1 / 10 ^ 150) = 1 / 2 ^ 551"
  unfolding quantum_def SCALE_FACTOR_exp by (simp add: power_int_minus field_simps)

lemma SCALE_FACTOR_mant: "round_half_even (1 / 10 ^ 150 / (1 / 2 ^ 551)) = 7371020360979573"
  by (rule round_half_even_unique) (simp add: abs_if field_simps)

lemma SCALE_FACTOR_val: "SCALE_FACTOR = Flt (7371020360979573 / 2 ^ 551)"
proof -
  have "round_mag (1 / 10 ^ 150) = 7371020360979573 * (1 / 2 ^ 551)"
    by (simp only: round_mag_def SCALE_FACTOR_quantum SCALE_FACTOR_mant of_int_numeral)
  then have r: "round_mag (1 / 10 ^ 150) = 7371020360979573 / 2 ^ 551"
    by (simp only: mult_1 times_divide_eq_right mult.right_neutral)
  moreover have "\<not> (2::rat) ^ 1024 \<le> 7371020360979573 / 2 ^ 551" by simp
  moreover have "(1::rat) / 10 ^ 150 \<noteq> 0" "\<bar>(1::rat) / 10 ^ 150\<bar> = 1 / 10 ^ 150"
    "sgn ((1::rat) / 10 ^ 150) = 1" "0 < (1::rat) / 10 ^ 150"
    by simp_all
  ultimately show ?thesis
    unfolding SCALE_FACTOR_def to_double_def by (simp only: if_False mult_1)
qed



lemma thr_bounds: "2 ^ 996 \<le> thr" "thr \<le> 2 ^ 997"
  by (simp_all add: thr_def)

lemma scl_bounds: "1 / 2 ^ 499 \<le> scl" "scl \<le> 1 / 2 ^ 498" "0 < scl"
  by (simp_all add: scl_def field_simps)

lemma THRESHOLD_thr: "THRESHOLD = Flt thr"
  by (simp only: THRESHOLD_val thr_def)

lemma SCALE_FACTOR_scl: "SCALE_FACTOR = Flt scl"
  by (simp only: SCALE_FACTOR_val scl_def)

lemma step_facts:
  assumes "1 \<le> x" "x \<le> y" "y \<le> 3 * x" "y \<le> thr"
  shows "\<exists>y1. fadd (Flt x) (Flt y) = Flt y1 \<and> y < y1 \<and>
           4 / 3 * (y - y / 9007199254740992) \<le> y1 \<and> y1 \<le> 2 * (y + y / 9007199254740992)"
proof -
  have s1: "1 \<le> x + y" using assms by linarith
  have "x + y \<le> 2 * thr" using assms by linarith
  also have "\<dots> \<le> 2 * 2 ^ 997" using thr_bounds(2) by linarith
  also have "\<dots> \<le> (2::rat) ^ 1023" by simp
  finally have s2: "x + y \<le> 2 ^ 1023" .
  obtain y1 where y1: "to_double (x + y) = Flt y1"
    and e2: "(x + y) - (x + y) / 9007199254740992 \<le> y1"
    and e1: "y1 \<le> (x + y) + (x + y) / 9007199254740992"
    using to_double_normal[OF s1 s2] by blast
  have lo: "4 / 3 * (y - y / 9007199254740992) \<le> y1" using e2 assms(1-3) by (simp add: field_simps)
  have hi: "y1 \<le> 2 * (y + y / 9007199254740992)" using e1 assms(1-3) by (simp add: field_simps)
  have "y < y1" using lo assms(1-3) by (simp add: field_simps)
  then show ?thesis using y1 lo hi by simp
qed


lemma rescale_facts:
  assumes y1: "1 \<le> y" "y \<le> thr"
    and lo: "4 / 3 * (y - y / 9007199254740992) \<le> y1"
    and hi: "y1 \<le> 2 * (y + y / 9007199254740992)"
    and over: "thr < y1"
  shows "\<exists>x2 y2. fmul (Flt y) SCALE_FACTOR = Flt x2 \<and> fmul (Flt y1) SCALE_FACTOR = Flt y2 \<and>
           1 \<le> x2 \<and> x2 < y2 \<and> y2 \<le> 3 * x2 \<and> y2 \<le> thr \<and> x2 \<le> y \<and> y * scl < y2"
proof -
  define p where "p = y * scl"
  define p1 where "p1 = y1 * scl"
  have s0: "0 \<le> scl" using scl_bounds(3) by simp
  have ylo: "2 ^ 994 \<le> y"
  proof -
    have "(2::rat) ^ 996 < 2 * (y + y / 9007199254740992)" using thr_bounds(1) over hi by linarith
    moreover have "(2::rat) ^ 996 = 4 * 2 ^ 994" by simp
    ultimately show ?thesis using y1(1) by (simp add: field_simps)
  qed
  have "2 ^ 994 * scl \<le> y * scl" using ylo s0 by (rule mult_right_mono)
  moreover have "(2::rat) ^ 994 * (1 / 2 ^ 499) \<le> 2 ^ 994 * scl"
    using scl_bounds(1) by (intro mult_left_mono) simp_all
  moreover have "(2::rat) ^ 994 * (1 / 2 ^ 499) = 2 ^ 495" by simp
  ultimately have plo: "2 ^ 495 \<le> p" unfolding p_def by linarith
  have "y * scl \<le> 2 ^ 997 * scl" using y1(2) thr_bounds(2) s0 by (intro mult_right_mono) linarith+
  moreover have "(2::rat) ^ 997 * scl \<le> 2 ^ 997 * (1 / 2 ^ 498)"
    using scl_bounds(2) by (intro mult_left_mono) simp_all
  moreover have "(2::rat) ^ 997 * (1 / 2 ^ 498) = 2 ^ 499" by simp
  ultimately have phi: "p \<le> 2 ^ 499" unfolding p_def by linarith
  have "y * scl \<le> y * (1 / 2 ^ 498)" using scl_bounds(2) y1(1) by (intro mult_left_mono) simp_all
  then have py: "p \<le> y / 2 ^ 498" by (simp add: p_def)
  have "4 / 3 * (y - y / 9007199254740992) * scl \<le> y1 * scl" using lo s0 by (rule mult_right_mono)
  then have r1: "4 / 3 * (p - p / 9007199254740992) \<le> p1" by (simp add: p_def p1_def algebra_simps)
  have "y1 * scl \<le> 2 * (y + y / 9007199254740992) * scl" using hi s0 by (rule mult_right_mono)
  then have r2: "p1 \<le> 2 * (p + p / 9007199254740992)" by (simp add: p_def p1_def algebra_simps)
  have c495: "(1::rat) \<le> 2 ^ 495" by simp
  have c499: "(2::rat) ^ 499 \<le> 2 ^ 1023" "(2::rat) ^ 499 * 4 \<le> 2 ^ 1023" "(2::rat) ^ 499 * 4 * 2 \<le> 2 ^ 996"
    by simp_all
  have p_ge1: "1 \<le> p" using plo c495 by linarith
  have p_le: "p \<le> 2 ^ 1023" using phi c499(1) by linarith
  have p1_ge1: "1 \<le> p1" using r1 p_ge1 by (simp add: field_simps)
  have p1_le4: "p1 \<le> 2 ^ 499 * 4" using r2 phi p_ge1 by (simp add: field_simps)
  have p1_le: "p1 \<le> 2 ^ 1023" using p1_le4 c499(2) by linarith
  obtain x2 where x2: "to_double p = Flt x2"
    and x2lo: "p - p / 9007199254740992 \<le> x2" and x2hi: "x2 \<le> p + p / 9007199254740992"
    using to_double_normal[OF p_ge1 p_le] by blast
  obtain y2 where y2: "to_double p1 = Flt y2"
    and y2lo: "p1 - p1 / 9007199254740992 \<le> y2" and y2hi: "y2 \<le> p1 + p1 / 9007199254740992"
    using to_double_normal[OF p1_ge1 p1_le] by blast
  have "(2::rat) \<le> 2 ^ 495" by simp
  then have "2 \<le> p" using plo by linarith
  then have A: "1 \<le> x2" using x2lo by (simp add: field_simps)
  have B: "x2 < y2" using x2hi y2lo r1 p_ge1 by (simp add: field_simps)
  have C: "y2 \<le> 3 * x2" using x2lo y2hi r2 p_ge1 by (simp add: field_simps)
  have "y2 \<le> 2 ^ 499 * 4 * 2" using y2hi p1_le4 p1_ge1 by (simp add: field_simps)
  then have D: "y2 \<le> thr" using c499(3) thr_bounds(1) by linarith
  have "p \<le> y / 2" 
  proof -
    have "y / 2 ^ 498 \<le> y / 2" using y1(1) by (intro divide_left_mono) simp_all
    then show ?thesis using py by linarith
  qed
  then have E: "x2 \<le> y" using x2hi y1(1) p_ge1 by (simp add: field_simps)
  have F: "y * scl < y2" using y2lo r1 p_ge1 unfolding p_def[symmetric] by (simp add: field_simps)
  show ?thesis
    using x2 y2 A B C D E F by (simp add: SCALE_FACTOR_scl p_def p1_def)
qed

section \<open>Properties of the monitor\<close>

lemma Max_snoc: "Max (set (0 # xs @ [m])) = max (Max (set (0 # xs))) (m::rat)"
proof -
  have "set (0 # xs @ [m]) = insert m (set (0 # xs))" by auto
  then show ?thesis by (simp add: max.commute del: set_simps)
qed

lemma monitor_body_fields:
  "mem_seen (snd (monitor_body (Reading c m) s)) = mem_seen s @ [m]"
  "cpu_seen (snd (monitor_body (Reading c m) s)) = cpu_seen s @ [c]"
  "max_mem_record (snd (monitor_body (Reading c m) s)) = max (max_mem_record s) m"
  "max_cpu_record (snd (monitor_body (Reading c m) s)) = max (max_cpu_record s) c"
  by (auto simp: monitor_body_def Let_def max_def)

lemma monitor_body_b_fields:
  "mem_seen (snd (monitor_body_b (Reading c m) s)) = mem_seen s @ [m]"
  "cpu_seen (snd (monitor_body_b (Reading c m) s)) = cpu_seen s"
  "max_mem_record (snd (monitor_body_b (Reading c m) s)) = max (max_mem_record s) m"
  "max_cpu_record (snd (monitor_body_b (Reading c m) s)) = max_cpu_record s"
  by (auto simp: monitor_body_b_def Let_def max_def)

lemma monitor_body_peaks: "peaks_ok s \<Longrightarrow> peaks_ok (snd (monitor_body r s))"
proof (cases r)
  case (Reading c m)
  assume "peaks_ok s"
  then show ?thesis
    unfolding peaks_ok_def Reading monitor_body_fields Max_snoc by simp
qed (simp_all add: monitor_body_def)


lemma monitor_body_b_peaks: "mem_peak_ok s \<Longrightarrow> mem_peak_ok (snd (monitor_body_b r s))"
proof (cases r)
  case (Reading c m)
  assume "mem_peak_ok s"
  then show ?thesis
    unfolding mem_peak_ok_def Reading monitor_body_b_fields Max_snoc by simp
qed (simp_all add: monitor_body_b_def)

lemma monitor_loop_inv:
  assumes step: "\<And>r s. P s \<Longrightarrow> P (snd (body r s))"
    and stop: "\<And>s w. P s \<Longrightarrow> P (s\<lparr>stop_event := w\<rparr>)"
  shows "P s \<Longrightarrow> P (snd (monitor_loop body ts s))"
proof (induction ts arbitrary: s)
  case Nil
  then show ?case by simp
next
  case (Cons t ts)
  obtain w r where t: "t = (w, r)" by (cases t)
  show ?case
  proof (cases "stop_event s \<or> w")
    case True
    then show ?thesis using Cons.prems stop t by simp
  next
    case False
    obtain e s1 where b: "body r s = (e, s1)" by (cases "body r s")
    have P1: "P s1" using step[OF Cons.prems, of r] b by simp
    show ?thesis using False t b P1 Cons.IH[OF P1] by (cases e) simp_all
  qed
qed

lemma monitor_body_mono:
  "max_mem_record s \<le> max_mem_record (snd (monitor_body r s)) \<and>
   max_cpu_record s \<le> max_cpu_record (snd (monitor_body r s))"
  unfolding monitor_body_def Let_def by (cases r) auto

lemma monitor_body_b_mono:
  "max_mem_record s \<le> max_mem_record (snd (monitor_body_b r s)) \<and>
   max_cpu_record s \<le> max_cpu_record (snd (monitor_body_b r s))"
  unfolding monitor_body_b_def Let_def by (cases r) auto

lemma monitor_loop_mono:
  assumes step: "\<And>r s. f s \<le> f (snd (body r s))"
    and stop: "\<And>s w. f (s\<lparr>stop_event := w\<rparr>) = f s"
  shows "(f s :: rat) \<le> f (snd (monitor_loop body ts s))"
proof -
  have "\<And>x. x \<le> f s \<Longrightarrow> x \<le> f (snd (monitor_loop body ts s))" for s
    by (rule monitor_loop_inv[where P = "\<lambda>s. _ \<le> f s"]) (use step stop in \<open>auto intro: order_trans\<close>)
  then show ?thesis by blast
qed

lemma monitor_loop_append:
  assumes "\<And>r s. fst (body r s) \<noteq> Some StillPolling"
  shows "monitor_loop body (ts1 @ ts2) s =
     (if fst (monitor_loop body ts1 s) = StillPolling
      then monitor_loop body ts2 (snd (monitor_loop body ts1 s))
      else monitor_loop body ts1 s)"
proof (induction ts1 arbitrary: s)
  case Nil
  then show ?case by simp
next
  case (Cons t ts1)
  obtain w r where t: "t = (w, r)" by (cases t)
  show ?case
  proof (cases "stop_event s \<or> w")
    case True
    then show ?thesis by (simp add: t)
  next
    case False
    obtain e s1 where b: "body r s = (e, s1)" by (cases "body r s")
    have "e \<noteq> Some StillPolling" using assms[of r s] b by simp
    then show ?thesis using False Cons.IH b
      by (cases e) (simp_all add: t)
  qed
qed

lemma monitor_body_not_polling:
  "fst (monitor_body r s) \<noteq> Some StillPolling" "fst (monitor_body_b r s) \<noteq> Some StillPolling"
  by (auto simp: monitor_body_def monitor_body_b_def Let_def split: reading.splits)

lemma monitor_loop_take_mono:
  assumes np: "\<And>r s. fst (body r s) \<noteq> Some StillPolling"
    and step: "\<And>r s. f s \<le> f (snd (body r s))"
    and stop: "\<And>s w. f (s\<lparr>stop_event := w\<rparr>) = f s"
    and kl: "k \<le> l"
  shows "(f (snd (monitor_loop body (take k ts) s)) :: rat) \<le> f (snd (monitor_loop body (take l ts) s))"
proof -
  have "take l ts = take k ts @ take (l - k) (drop k ts)"
    using kl by (metis le_add_diff_inverse take_add)
  then show ?thesis
    using monitor_loop_append[where body = body, OF np, of "take k ts" "take (l - k) (drop k ts)" s]
      monitor_loop_mono[where f = f and body = body, OF step stop]
    by (auto split: if_splits)
qed

lemma monitor_loop_exit:
  "fst (monitor_loop body ts s) = e \<Longrightarrow> e \<noteq> StillPolling \<Longrightarrow> e \<noteq> StopObserved \<Longrightarrow>
   \<exists>r s0. body r s0 = (Some e, snd (monitor_loop body ts s))"
proof (induction ts arbitrary: s)
  case Nil
  then show ?case by simp
next
  case (Cons t ts)
  obtain w r where t: "t = (w, r)" by (cases t)
  show ?case
  proof (cases "stop_event s \<or> w")
    case True
    then show ?thesis using Cons.prems t by auto
  next
    case False
    obtain x s1 where b: "body r s = (x, s1)" by (cases "body r s")
    show ?thesis
    proof (cases x)
      case None
      then show ?thesis using False t b Cons.IH[of s1] Cons.prems by simp
    next
      case (Some e')
      then show ?thesis using False t b Cons.prems by auto
    qed
  qed
qed

lemma monitor_body_ceiling:
  "monitor_body r s0 = (Some CeilingReached, s') \<Longrightarrow>
   mem_seen s' \<noteq> [] \<and> MEMORY_LIMIT_PERCENT \<le> last (mem_seen s') \<and> stop_event s'"
  by (cases r) (auto simp: monitor_body_def Let_def split: if_splits)

lemma monitor_body_b_ceiling:
  "monitor_body_b r s0 = (Some CeilingReached, s') \<Longrightarrow>
   mem_seen s' \<noteq> [] \<and> MEMORY_LIMIT_PERCENT \<le> last (mem_seen s') \<and> stop_event s'"
  by (cases r) (auto simp: monitor_body_b_def Let_def split: if_splits)

lemma Max_with_zero:
  "xs \<noteq> [] \<Longrightarrow> \<forall>x\<in>set xs. (0::rat) \<le> x \<Longrightarrow> Max (set (0 # xs)) = Max (set xs)"
proof -
  assume ne: "xs \<noteq> []" and nn: "\<forall>x\<in>set xs. (0::rat) \<le> x"
  have "Max (insert 0 (set xs)) = max 0 (Max (set xs))"
    using ne by (intro Max_insert) auto
  moreover have "0 \<le> Max (set xs)"
    using ne nn by (meson List.finite_set Max_in set_empty)
  ultimately show ?thesis by simp
qed

lemma peaks_ok_init: "peaks_ok init_monitor" "mem_peak_ok init_monitor"
  by (simp_all add: peaks_ok_def mem_peak_ok_def init_monitor_def)

lemma peaks_ok_stop: "peaks_ok (s\<lparr>stop_event := w\<rparr>) = peaks_ok s"
  "mem_peak_ok (s\<lparr>stop_event := w\<rparr>) = mem_peak_ok s"
  by (simp_all add: peaks_ok_def mem_peak_ok_def)

lemma monitor_body_keeps_unset:
  "monitor_body r s = (None, s1) \<Longrightarrow> stop_event s1 = stop_event s"
  "monitor_body_b r s = (None, s1) \<Longrightarrow> stop_event s1 = stop_event s"
  by (cases r; auto simp: monitor_body_def monitor_body_b_def Let_def split: if_splits)+

lemma monitor_loop_seen:
  assumes "\<not> stop_event s"
  shows "mem_seen (snd (monitor_loop monitor_body ts s)) = mem_seen s @ map snd (readings_processed ts) \<and>
         cpu_seen (snd (monitor_loop monitor_body ts s)) = cpu_seen s @ map fst (readings_processed ts) \<and>
         (fst (monitor_loop monitor_body ts s) = CeilingReached) =
           (readings_processed ts \<noteq> [] \<and> MEMORY_LIMIT_PERCENT \<le> snd (last (readings_processed ts)))"
  using assms
proof (induction ts arbitrary: s)
  case Nil
  then show ?case by simp
next
  case (Cons t ts)
  obtain w r where t: "t = (w, r)" by (cases t)
  show ?case
  proof (cases w)
    case True
    then show ?thesis using t by (cases r) simp_all
  next
    case False
    show ?thesis
    proof (cases r)
      case (Reading c m)
      show ?thesis
      proof (cases "MEMORY_LIMIT_PERCENT \<le> m")
        case True
        then show ?thesis using t False Reading Cons.prems
          by (simp add: monitor_body_def Let_def)
      next
        case below: False
        obtain s1 where b: "monitor_body (Reading c m) s = (None, s1)"
          using below by (simp add: monitor_body_def Let_def)
        have s1: "\<not> stop_event s1" using monitor_body_keeps_unset(1)[OF b] Cons.prems by simp
        have seen: "mem_seen s1 = mem_seen s @ [m]" "cpu_seen s1 = cpu_seen s @ [c]"
          using monitor_body_fields(1,2)[of c m s] b by simp_all
        have step: "monitor_loop monitor_body (t # ts) s = monitor_loop monitor_body ts s1"
          using t False Reading Cons.prems b by simp
        have rp: "readings_processed (t # ts) = (c, m) # readings_processed ts"
          using t False Reading below by simp
        show ?thesis using Cons.IH[OF s1] seen below unfolding step rp by auto
      qed
    next
      case SamplingError
      then show ?thesis using t False Cons.prems by (simp add: monitor_body_def)
    next
      case KeyboardInterrupt
      then show ?thesis using t False Cons.prems by (simp add: monitor_body_def)
    qed
  qed
qed

lemma monitor_loop_b_seen:
  assumes "\<not> stop_event s"
  shows "mem_seen (snd (monitor_loop monitor_body_b ts s)) = mem_seen s @ map snd (readings_processed ts) \<and>
         (fst (monitor_loop monitor_body_b ts s) = CeilingReached) =
           (readings_processed ts \<noteq> [] \<and> MEMORY_LIMIT_PERCENT \<le> snd (last (readings_processed ts)))"
  using assms
proof (induction ts arbitrary: s)
  case Nil
  then show ?case by simp
next
  case (Cons t ts)
  obtain w r where t: "t = (w, r)" by (cases t)
  show ?case
  proof (cases w)
    case True
    then show ?thesis using t by (cases r) simp_all
  next
    case False
    show ?thesis
    proof (cases r)
      case (Reading c m)
      show ?thesis
      proof (cases "MEMORY_LIMIT_PERCENT \<le> m")
        case True
        then show ?thesis using t False Reading Cons.prems
          by (simp add: monitor_body_b_def Let_def)
      next
        case below: False
        obtain s1 where b: "monitor_body_b (Reading c m) s = (None, s1)"
          using below by (simp add: monitor_body_b_def Let_def)
        have s1: "\<not> stop_event s1" using monitor_body_keeps_unset(2)[OF b] Cons.prems by simp
        have seen: "mem_seen s1 = mem_seen s @ [m]"
          using monitor_body_b_fields(1)[of c m s] b by simp
        have step: "monitor_loop monitor_body_b (t # ts) s = monitor_loop monitor_body_b ts s1"
          using t False Reading Cons.prems b by simp
        have rp: "readings_processed (t # ts) = (c, m) # readings_processed ts"
          using t False Reading below by simp
        show ?thesis using Cons.IH[OF s1] seen below unfolding step rp by auto
      qed
    next
      case SamplingError
      then show ?thesis using t False Cons.prems by (simp add: monitor_body_b_def)
    next
      case KeyboardInterrupt
      then show ?thesis using t False Cons.prems by (simp add: monitor_body_b_def)
    qed
  qed
qed

lemma readings_processed_feed:
  assumes "\<forall>x\<in>set rs. snd x < MEMORY_LIMIT_PERCENT"
  shows "readings_processed (map feed rs) = rs"
    and "MEMORY_LIMIT_PERCENT \<le> m \<Longrightarrow> readings_processed (map feed rs @ feed (c, m) # rest) = rs @ [(c, m)]"
  using assms by (induction rs) (auto simp: feed_def)

lemma Max_with_zero_weak:
  assumes "x \<in> set xs" "(0::rat) \<le> x"
  shows "Max (set (0 # xs)) = Max (set xs)"
proof -
  have ne: "set xs \<noteq> {}" using assms(1) by auto
  have "Max (insert 0 (set xs)) = max 0 (Max (set xs))"
    using ne by (intro Max_insert) auto
  moreover have "x \<le> Max (set xs)" using assms(1) by simp
  then have "0 \<le> Max (set xs)" using assms(2) by linarith
  ultimately show ?thesis by simp
qed

text \<open>
  Claim C7. On a tick that gets a reading, the loop body ends the loop with the stop event
  set exactly when the memory percentage is at or above \<open>MEMORY_LIMIT_PERCENT\<close> (a
  reading equal to the ceiling stops the run); below the ceiling the body falls through
  and leaves the event as it was. This holds for the monitor of c.py, FN.py and
  finumpy.py and for the monitor of b.py, and the loop acts on the body's answer.
\<close>

theorem monitor_stops_iff_ceiling_reached:
  "fst (monitor_body (Reading c m) s) = (if MEMORY_LIMIT_PERCENT \<le> m then Some CeilingReached else None)
   \<and> stop_event (snd (monitor_body (Reading c m) s)) = (stop_event s \<or> MEMORY_LIMIT_PERCENT \<le> m)
   \<and> fst (monitor_body_b (Reading c m) s) = (if MEMORY_LIMIT_PERCENT \<le> m then Some CeilingReached else None)
   \<and> stop_event (snd (monitor_body_b (Reading c m) s)) = (stop_event s \<or> MEMORY_LIMIT_PERCENT \<le> m)
   \<and> memory_monitor ((False, Reading c m) # ts) s =
       (if stop_event s then (StopObserved, s\<lparr>stop_event := True\<rparr>)
        else if MEMORY_LIMIT_PERCENT \<le> m then (CeilingReached, snd (monitor_body (Reading c m) s))
        else memory_monitor ts (snd (monitor_body (Reading c m) s)))
   \<and> memory_monitor_b ((False, Reading c m) # ts) s =
       (if stop_event s then (StopObserved, s\<lparr>stop_event := True\<rparr>)
        else if MEMORY_LIMIT_PERCENT \<le> m then (CeilingReached, snd (monitor_body_b (Reading c m) s))
        else memory_monitor_b ts (snd (monitor_body_b (Reading c m) s)))"
  by (simp add: monitor_body_def monitor_body_b_def memory_monitor_def memory_monitor_b_def Let_def)

text \<open>
  Claim C2 does not hold of the code. Every other way out of a run sets the stop event:
  the ceiling branch of the same loop, the \<^verbatim>\<open>KeyboardInterrupt\<close> handler around the
  call of the monitor, and the \<^verbatim>\<open>except MemoryError\<close> clause of each worker. The
  \<^verbatim>\<open>except Exception\<close> clause of the monitor only breaks. With a sampling error on the
  first tick, the monitor of c.py, FN.py and finumpy.py and the monitor of b.py both
  leave their loop with the event unset, and the main block goes on to join a worker
  that nobody has told to stop.
\<close>

theorem sampling_error_leaves_stop_unset:
  "fst (memory_monitor [(False, SamplingError)] init_monitor) = SamplingFailed \<and>
   \<not> stop_event (snd (memory_monitor [(False, SamplingError)] init_monitor)) \<and>
   fst (memory_monitor_b [(False, SamplingError)] init_monitor) = SamplingFailed \<and>
   \<not> stop_event (snd (memory_monitor_b [(False, SamplingError)] init_monitor)) \<and>
   harness_c (Some 1) [(False, SamplingError)] never_exit =
     Inr [Spawn 0, MonitorExit SamplingFailed, JoinBlocked 0]"
  by (simp add: memory_monitor_def memory_monitor_b_def monitor_body_def monitor_body_b_def
      init_monitor_def harness_c_def harness_def never_exit_def Let_def)

text \<open>
  Claim C5. \<open>readings_processed ts\<close> are the readings that the ticks \<open>ts\<close> give
  the monitor before its loop ends, the one that reaches the ceiling included. Run from
  the initial registers 0.0, the monitor leaves in each peak register the maximum of 0.0
  and of the percentages of those readings; that is the maximum of the percentages alone
  when there is at least one reading and none is negative, as percentages are. When the
  loop ends on the ceiling, the memory peak is the maximum of all memory percentages
  processed, the last one included, whatever their signs. In particular, feeding any
  readings below the ceiling and then one at or above it ends the loop on the ceiling
  with the memory peak equal to the maximum of the memory percentages fed, the last one
  included, and the same for the CPU peak when no CPU percentage is negative. The
  registers never decrease along the run: after \<open>k\<close> ticks they are at most what they
  are after \<open>l \<ge> k\<close> ticks. All of this holds for the monitor of c.py, FN.py and
  finumpy.py, and for the memory peak of the monitor of b.py.
\<close>

theorem peak_registers_are_running_maxima:
  assumes c: "memory_monitor ts init_monitor = (e, s')"
    and b: "memory_monitor_b ts init_monitor = (eb, sb)"
  shows "mem_seen s' = map snd (readings_processed ts) \<and>
         cpu_seen s' = map fst (readings_processed ts) \<and>
         mem_seen sb = map snd (readings_processed ts) \<and>
         max_mem_record s' = Max (set (0 # map snd (readings_processed ts))) \<and>
         max_cpu_record s' = Max (set (0 # map fst (readings_processed ts))) \<and>
         max_mem_record sb = Max (set (0 # map snd (readings_processed ts))) \<and>
         (readings_processed ts \<noteq> [] \<and> (\<forall>x\<in>set (readings_processed ts). 0 \<le> fst x \<and> 0 \<le> snd x) \<longrightarrow>
            max_mem_record s' = Max (set (map snd (readings_processed ts))) \<and>
            max_cpu_record s' = Max (set (map fst (readings_processed ts))) \<and>
            max_mem_record sb = Max (set (map snd (readings_processed ts)))) \<and>
         (e = CeilingReached \<or> eb = CeilingReached \<longrightarrow>
            e = CeilingReached \<and> eb = CeilingReached \<and> readings_processed ts \<noteq> [] \<and>
            MEMORY_LIMIT_PERCENT \<le> snd (last (readings_processed ts)) \<and>
            max_mem_record s' = Max (set (map snd (readings_processed ts))) \<and>
            max_mem_record sb = Max (set (map snd (readings_processed ts)))) \<and>
         ((\<forall>x\<in>set rs. snd x < MEMORY_LIMIT_PERCENT) \<and> MEMORY_LIMIT_PERCENT \<le> m \<longrightarrow>
            fst (memory_monitor (map feed rs @ feed (c, m) # rest) init_monitor) = CeilingReached \<and>
            max_mem_record (snd (memory_monitor (map feed rs @ feed (c, m) # rest) init_monitor))
              = Max (set (map snd (rs @ [(c, m)]))) \<and>
            fst (memory_monitor_b (map feed rs @ feed (c, m) # rest) init_monitor) = CeilingReached \<and>
            max_mem_record (snd (memory_monitor_b (map feed rs @ feed (c, m) # rest) init_monitor))
              = Max (set (map snd (rs @ [(c, m)]))) \<and>
            ((\<forall>x\<in>set (rs @ [(c, m)]). 0 \<le> fst x) \<longrightarrow>
               max_cpu_record (snd (memory_monitor (map feed rs @ feed (c, m) # rest) init_monitor))
                 = Max (set (map fst (rs @ [(c, m)]))))) \<and>
         (k \<le> l \<longrightarrow>
            max_mem_record (snd (memory_monitor (take k ts) init_monitor))
              \<le> max_mem_record (snd (memory_monitor (take l ts) init_monitor)) \<and>
            max_cpu_record (snd (memory_monitor (take k ts) init_monitor))
              \<le> max_cpu_record (snd (memory_monitor (take l ts) init_monitor)) \<and>
            max_mem_record (snd (memory_monitor_b (take k ts) init_monitor))
              \<le> max_mem_record (snd (memory_monitor_b (take l ts) init_monitor)))"
proof -
  have u: "\<not> stop_event init_monitor" "mem_seen init_monitor = []" "cpu_seen init_monitor = []"
    by (simp_all add: init_monitor_def)
  have gen: "mem_seen (snd (memory_monitor us init_monitor)) = map snd (readings_processed us) \<and>
      cpu_seen (snd (memory_monitor us init_monitor)) = map fst (readings_processed us) \<and>
      (fst (memory_monitor us init_monitor) = CeilingReached) =
        (readings_processed us \<noteq> [] \<and> MEMORY_LIMIT_PERCENT \<le> snd (last (readings_processed us))) \<and>
      max_mem_record (snd (memory_monitor us init_monitor)) = Max (set (0 # map snd (readings_processed us))) \<and>
      max_cpu_record (snd (memory_monitor us init_monitor)) = Max (set (0 # map fst (readings_processed us)))"
    for us
  proof -
    have "peaks_ok (snd (memory_monitor us init_monitor))"
      using monitor_loop_inv[where P = peaks_ok and body = monitor_body, of init_monitor us]
        monitor_body_peaks peaks_ok_init
      by (simp add: memory_monitor_def peaks_ok_stop)
    then show ?thesis
      using monitor_loop_seen[OF u(1), of us] u(2,3)
      by (simp add: memory_monitor_def peaks_ok_def)
  qed
  have genb: "mem_seen (snd (memory_monitor_b us init_monitor)) = map snd (readings_processed us) \<and>
      (fst (memory_monitor_b us init_monitor) = CeilingReached) =
        (readings_processed us \<noteq> [] \<and> MEMORY_LIMIT_PERCENT \<le> snd (last (readings_processed us))) \<and>
      max_mem_record (snd (memory_monitor_b us init_monitor)) = Max (set (0 # map snd (readings_processed us)))"
    for us
  proof -
    have "mem_peak_ok (snd (memory_monitor_b us init_monitor))"
      using monitor_loop_inv[where P = mem_peak_ok and body = monitor_body_b, of init_monitor us]
        monitor_body_b_peaks peaks_ok_init
      by (simp add: memory_monitor_b_def peaks_ok_stop)
    then show ?thesis
      using monitor_loop_b_seen[OF u(1), of us] u(2)
      by (simp add: memory_monitor_b_def mem_peak_ok_def)
  qed
  have limit0: "0 \<le> MEMORY_LIMIT_PERCENT" by (simp add: MEMORY_LIMIT_PERCENT_def)
  have top: "Max (set (0 # map snd xs)) = Max (set (map snd xs))"
    if "xs \<noteq> []" "MEMORY_LIMIT_PERCENT \<le> snd (last xs)" for xs :: "(rat \<times> rat) list"
  proof (rule Max_with_zero_weak[of "snd (last xs)"])
    show "snd (last xs) \<in> set (map snd xs)" using that(1) by simp
    show "0 \<le> snd (last xs)" using that(2) limit0 by linarith
  qed
  have g: "mem_seen s' = map snd (readings_processed ts) \<and>
      cpu_seen s' = map fst (readings_processed ts) \<and>
      (e = CeilingReached) =
        (readings_processed ts \<noteq> [] \<and> MEMORY_LIMIT_PERCENT \<le> snd (last (readings_processed ts))) \<and>
      max_mem_record s' = Max (set (0 # map snd (readings_processed ts))) \<and>
      max_cpu_record s' = Max (set (0 # map fst (readings_processed ts)))"
    using gen[of ts] unfolding c fst_conv snd_conv .
  have gb: "mem_seen sb = map snd (readings_processed ts) \<and>
      (eb = CeilingReached) =
        (readings_processed ts \<noteq> [] \<and> MEMORY_LIMIT_PERCENT \<le> snd (last (readings_processed ts))) \<and>
      max_mem_record sb = Max (set (0 # map snd (readings_processed ts)))"
    using genb[of ts] unfolding b fst_conv snd_conv .
  have p1: "mem_seen s' = map snd (readings_processed ts)"
    and p2: "cpu_seen s' = map fst (readings_processed ts)"
    and pe: "(e = CeilingReached) =
        (readings_processed ts \<noteq> [] \<and> MEMORY_LIMIT_PERCENT \<le> snd (last (readings_processed ts)))"
    and p4: "max_mem_record s' = Max (set (0 # map snd (readings_processed ts)))"
    and p5: "max_cpu_record s' = Max (set (0 # map fst (readings_processed ts)))"
    using g by blast+
  have p3: "mem_seen sb = map snd (readings_processed ts)"
    and peb: "(eb = CeilingReached) =
        (readings_processed ts \<noteq> [] \<and> MEMORY_LIMIT_PERCENT \<le> snd (last (readings_processed ts)))"
    and p6: "max_mem_record sb = Max (set (0 # map snd (readings_processed ts)))"
    using gb by blast+
  have p7: "readings_processed ts \<noteq> [] \<and> (\<forall>x\<in>set (readings_processed ts). 0 \<le> fst x \<and> 0 \<le> snd x) \<longrightarrow>
            max_mem_record s' = Max (set (map snd (readings_processed ts))) \<and>
            max_cpu_record s' = Max (set (map fst (readings_processed ts))) \<and>
            max_mem_record sb = Max (set (map snd (readings_processed ts)))"
  proof (intro impI)
    assume a: "readings_processed ts \<noteq> [] \<and> (\<forall>x\<in>set (readings_processed ts). 0 \<le> fst x \<and> 0 \<le> snd x)"
    have m: "Max (set (0 # map snd (readings_processed ts))) = Max (set (map snd (readings_processed ts)))"
      using a by (intro Max_with_zero) auto
    have f: "Max (set (0 # map fst (readings_processed ts))) = Max (set (map fst (readings_processed ts)))"
      using a by (intro Max_with_zero) auto
    show "max_mem_record s' = Max (set (map snd (readings_processed ts))) \<and>
            max_cpu_record s' = Max (set (map fst (readings_processed ts))) \<and>
            max_mem_record sb = Max (set (map snd (readings_processed ts)))"
      using p4 p5 p6 m f by (simp only:)
  qed
  have p8: "e = CeilingReached \<or> eb = CeilingReached \<longrightarrow>
            e = CeilingReached \<and> eb = CeilingReached \<and> readings_processed ts \<noteq> [] \<and>
            MEMORY_LIMIT_PERCENT \<le> snd (last (readings_processed ts)) \<and>
            max_mem_record s' = Max (set (map snd (readings_processed ts))) \<and>
            max_mem_record sb = Max (set (map snd (readings_processed ts)))"
  proof (intro impI)
    assume "e = CeilingReached \<or> eb = CeilingReached"
    then have a: "readings_processed ts \<noteq> []"
      "MEMORY_LIMIT_PERCENT \<le> snd (last (readings_processed ts))"
      using pe peb by blast+
    have m: "Max (set (0 # map snd (readings_processed ts))) = Max (set (map snd (readings_processed ts)))"
      using top[OF a] .
    have "e = CeilingReached" "eb = CeilingReached" using a pe peb by blast+
    then show "e = CeilingReached \<and> eb = CeilingReached \<and> readings_processed ts \<noteq> [] \<and>
            MEMORY_LIMIT_PERCENT \<le> snd (last (readings_processed ts)) \<and>
            max_mem_record s' = Max (set (map snd (readings_processed ts))) \<and>
            max_mem_record sb = Max (set (map snd (readings_processed ts)))"
      using a p4 p6 m by (simp only: simp_thms)
  qed
  have p9: "(\<forall>x\<in>set rs. snd x < MEMORY_LIMIT_PERCENT) \<and> MEMORY_LIMIT_PERCENT \<le> m \<longrightarrow>
            fst (memory_monitor (map feed rs @ feed (c, m) # rest) init_monitor) = CeilingReached \<and>
            max_mem_record (snd (memory_monitor (map feed rs @ feed (c, m) # rest) init_monitor))
              = Max (set (map snd (rs @ [(c, m)]))) \<and>
            fst (memory_monitor_b (map feed rs @ feed (c, m) # rest) init_monitor) = CeilingReached \<and>
            max_mem_record (snd (memory_monitor_b (map feed rs @ feed (c, m) # rest) init_monitor))
              = Max (set (map snd (rs @ [(c, m)]))) \<and>
            ((\<forall>x\<in>set (rs @ [(c, m)]). 0 \<le> fst x) \<longrightarrow>
               max_cpu_record (snd (memory_monitor (map feed rs @ feed (c, m) # rest) init_monitor))
                 = Max (set (map fst (rs @ [(c, m)]))))"
  proof (intro impI)
    assume a: "(\<forall>x\<in>set rs. snd x < MEMORY_LIMIT_PERCENT) \<and> MEMORY_LIMIT_PERCENT \<le> m"
    define us where "us = map feed rs @ feed (c, m) # rest"
    define xs where "xs = rs @ [(c, m)]"
    have rp: "readings_processed us = xs"
      unfolding us_def xs_def using readings_processed_feed(2)[of rs m c rest] a by blast
    have ne: "xs \<noteq> []" and la: "MEMORY_LIMIT_PERCENT \<le> snd (last xs)"
      using a by (simp_all add: xs_def)
    have t: "Max (set (0 # map snd xs)) = Max (set (map snd xs))" using top[OF ne la] .
    have cp: "(\<forall>x\<in>set xs. 0 \<le> fst x) \<longrightarrow>
        Max (set (0 # map fst xs)) = Max (set (map fst xs))"
    proof
      assume "\<forall>x\<in>set xs. 0 \<le> fst x"
      then show "Max (set (0 # map fst xs)) = Max (set (map fst xs))"
        using ne by (intro Max_with_zero) auto
    qed
    note gu = gen[of us, unfolded rp]
    note gbu = genb[of us, unfolded rp]
    have e1: "fst (memory_monitor us init_monitor) = CeilingReached" using gu ne la by blast
    have e2: "fst (memory_monitor_b us init_monitor) = CeilingReached" using gbu ne la by blast
    have m1: "max_mem_record (snd (memory_monitor us init_monitor)) = Max (set (map snd xs))"
      using gu t by (simp only:)
    have m2: "max_mem_record (snd (memory_monitor_b us init_monitor)) = Max (set (map snd xs))"
      using gbu t by (simp only:)
    have m3: "(\<forall>x\<in>set xs. 0 \<le> fst x) \<longrightarrow>
        max_cpu_record (snd (memory_monitor us init_monitor)) = Max (set (map fst xs))"
      using gu cp by (simp only:)
    show "fst (memory_monitor (map feed rs @ feed (c, m) # rest) init_monitor) = CeilingReached \<and>
            max_mem_record (snd (memory_monitor (map feed rs @ feed (c, m) # rest) init_monitor))
              = Max (set (map snd (rs @ [(c, m)]))) \<and>
            fst (memory_monitor_b (map feed rs @ feed (c, m) # rest) init_monitor) = CeilingReached \<and>
            max_mem_record (snd (memory_monitor_b (map feed rs @ feed (c, m) # rest) init_monitor))
              = Max (set (map snd (rs @ [(c, m)]))) \<and>
            ((\<forall>x\<in>set (rs @ [(c, m)]). 0 \<le> fst x) \<longrightarrow>
               max_cpu_record (snd (memory_monitor (map feed rs @ feed (c, m) # rest) init_monitor))
                 = Max (set (map fst (rs @ [(c, m)]))))"
      using e1 m1 e2 m2 m3 unfolding us_def xs_def by (intro conjI)
  qed
  have t1: "k \<le> l \<Longrightarrow> max_mem_record (snd (memory_monitor (take k ts) init_monitor))
              \<le> max_mem_record (snd (memory_monitor (take l ts) init_monitor))"
    unfolding memory_monitor_def
    by (rule monitor_loop_take_mono) (simp_all add: monitor_body_not_polling monitor_body_mono)
  have t2: "k \<le> l \<Longrightarrow> max_cpu_record (snd (memory_monitor (take k ts) init_monitor))
              \<le> max_cpu_record (snd (memory_monitor (take l ts) init_monitor))"
    unfolding memory_monitor_def
    by (rule monitor_loop_take_mono) (simp_all add: monitor_body_not_polling monitor_body_mono)
  have t3: "k \<le> l \<Longrightarrow> max_mem_record (snd (memory_monitor_b (take k ts) init_monitor))
              \<le> max_mem_record (snd (memory_monitor_b (take l ts) init_monitor))"
    unfolding memory_monitor_b_def
    by (rule monitor_loop_take_mono) (simp_all add: monitor_body_not_polling monitor_body_b_mono)
  have p10: "k \<le> l \<longrightarrow>
            max_mem_record (snd (memory_monitor (take k ts) init_monitor))
              \<le> max_mem_record (snd (memory_monitor (take l ts) init_monitor)) \<and>
            max_cpu_record (snd (memory_monitor (take k ts) init_monitor))
              \<le> max_cpu_record (snd (memory_monitor (take l ts) init_monitor)) \<and>
            max_mem_record (snd (memory_monitor_b (take k ts) init_monitor))
              \<le> max_mem_record (snd (memory_monitor_b (take l ts) init_monitor))"
    using t1 t2 t3 by blast
  show ?thesis
    using p1 p2 p3 p4 p5 p6 p7 p8 p9 p10 by (intro conjI)
qed

theorem peak_registers_are_running_maxima_witness:
  "readings_processed ticks_to_ceiling = [(40, 50), (90, 80), (70, 96)] \<and>
   fst (memory_monitor ticks_to_ceiling init_monitor) = CeilingReached \<and>
   max_mem_record (snd (memory_monitor ticks_to_ceiling init_monitor)) = Max (set [50, 80, 96]) \<and>
   max_cpu_record (snd (memory_monitor ticks_to_ceiling init_monitor)) = Max (set [40, 90, 70]) \<and>
   max_mem_record (snd (memory_monitor_b ticks_to_ceiling init_monitor)) = Max (set [50, 80, 96]) \<and>
   max_mem_record (snd (memory_monitor ticks_to_ceiling init_monitor)) = 96 \<and>
   max_cpu_record (snd (memory_monitor ticks_to_ceiling init_monitor)) = 90 \<and>
   max_mem_record (snd (memory_monitor (take 1 ticks_to_ceiling) init_monitor))
     \<le> max_mem_record (snd (memory_monitor (take 3 ticks_to_ceiling) init_monitor))"
proof -
  have rp: "readings_processed ticks_to_ceiling = [(40, 50), (90, 80), (70, 96)]"
    by (simp add: ticks_to_ceiling_def MEMORY_LIMIT_PERCENT_def)
  show ?thesis
    using peak_registers_are_running_maxima [OF surjective_pairing surjective_pairing,
      where ts = ticks_to_ceiling and k = 1 and l = 3] rp
    by (simp add: memory_monitor_def memory_monitor_b_def monitor_body_def monitor_body_b_def
      ticks_to_ceiling_def init_monitor_def MEMORY_LIMIT_PERCENT_def Let_def)
qed

section \<open>Properties of the harness\<close>

lemma join_all_events: "\<not> is_spawn e \<and> \<not> is_read e" if "e \<in> set (fst (join_all exits ps))"
  using that by (induction ps arbitrary: e) (auto split: if_splits prod.splits)

lemma join_all_done:
  "snd (join_all exits ps) \<Longrightarrow> fst (join_all exits ps) = map Joined ps \<and> (\<forall>p\<in>set ps. exits p)"
  by (induction ps) (auto split: if_splits prod.splits)

lemma filter_spawn_joins: "filter is_spawn (fst (join_all exits ps)) = []"
  using join_all_events by (auto simp: filter_empty_conv)

lemma filter_spawn_map_Spawn: "filter is_spawn (map Spawn ps) = map Spawn ps"
  by (induction ps) auto

lemma filter_spawn_map_Read: "filter is_spawn (map Read fs) = []"
  by (induction fs) auto

lemma harness_spawns:
  "harness monitor summary (Some n) ticks exits = Inr tr \<Longrightarrow> filter is_spawn tr = map Spawn [0..<n]"
  unfolding harness_def Let_def
  using filter_spawn_joins[of exits "[0..<n]"]
  by (auto simp: filter_spawn_map_Spawn filter_spawn_map_Read simp del: upt.simps split: if_splits prod.splits)

lemma prefix_before:
  assumes "A @ R = pre @ x # post" and "x \<notin> set A"
  shows "set A \<subseteq> set pre"
proof -
  from assms(1) obtain us where
    "(A = pre @ us \<and> us @ R = x # post) \<or> (A @ us = pre \<and> R = us @ x # post)"
    unfolding append_eq_append_conv2 by blast
  then show ?thesis
  proof
    assume h: "A = pre @ us \<and> us @ R = x # post"
    show ?thesis
    proof (cases us)
      case Nil
      then show ?thesis using h by simp
    next
      case (Cons u us')
      then have "x \<in> set A" using h by auto
      then show ?thesis using assms(2) by simp
    qed
  next
    assume "A @ us = pre \<and> R = us @ x # post"
    then show ?thesis by auto
  qed
qed

lemma harness_reads_after_joins:
  assumes tr: "harness monitor summary (Some n) ticks exits = Inr tr"
    and split: "tr = pre @ Read f # post"
  shows "\<forall>p<n. exits p \<and> Joined p \<in> set pre"
proof -
  define ex where "ex = fst (monitor ticks init_monitor)"
  define joins where "joins = fst (join_all exits [0..<n])"
  define finished where "finished = snd (join_all exits [0..<n])"
  define A where "A = map Spawn [0..<n] @ [MonitorExit ex] @ (if ex = Interrupted then [StopSet] else []) @ joins"
  have noread: "Read f \<notin> set A"
    using join_all_events[of "Read f" exits "[0..<n]"] by (auto simp: A_def joins_def)
  have ja: "join_all exits [0..<n] = (joins, finished)"
    by (simp add: joins_def finished_def)
  show ?thesis
  proof (cases "ex = StillPolling")
    case True
    then have "tr = map Spawn [0..<n] @ [MonitorExit ex]"
      using tr by (simp add: harness_def Let_def ex_def)
    then have "Read f \<notin> set tr" by auto
    then show ?thesis using split by simp
  next
    case False
    then have eq: "tr = A @ (if finished then map Read summary else [])"
      using tr ja by (simp add: harness_def Let_def ex_def A_def)
    show ?thesis
    proof (cases finished)
      case True
      then have j: "joins = map Joined [0..<n]" and e: "\<forall>p\<in>set [0..<n]. exits p"
        using join_all_done[of exits "[0..<n]"] by (simp_all add: joins_def finished_def)
      have "set A \<subseteq> set pre"
        using prefix_before[OF _ noread] eq split by metis
      then show ?thesis using j e by (auto simp: A_def)
    next
      case False
      then have "Read f \<notin> set tr" using eq noread by simp
      then show ?thesis using split by simp
    qed
  qed
qed

text \<open>
  Claim C8, as stated, fails for d.py: on a machine with 4 logical cores its main block
  starts 8 workers.
\<close>

theorem harness_d_spawns_eight_on_four_cores:
  "harness_d (Some 4) = Inr (map Spawn [0..<8]) \<and> spawn_count (map Spawn [0..<8]) = 8"
  by (simp add: harness_d_def spawn_count_def filter_spawn_map_Spawn del: upt.simps)

text \<open>
  Claim C8, amended. The harnesses of b.py, c.py, FN.py and finumpy.py start exactly one
  worker per logical core: the workers started are numbers \<open>0\<close> to \<open>n - 1\<close>, once
  each, where \<open>n\<close> is the core count the operating system reports. The harness of d.py
  starts two workers per logical core.
\<close>

theorem harnesses_spawn_one_worker_per_core_but_d:
  "(harness_b (Some n) ticks exits = Inr tr \<longrightarrow>
      filter is_spawn tr = map Spawn [0..<n] \<and> spawn_count tr = n) \<and>
   (harness_c (Some n) ticks exits = Inr tr \<longrightarrow>
      filter is_spawn tr = map Spawn [0..<n] \<and> spawn_count tr = n) \<and>
   (harness_FN (Some n) ticks exits = Inr tr \<longrightarrow>
      filter is_spawn tr = map Spawn [0..<n] \<and> spawn_count tr = n) \<and>
   (harness_finumpy (Some n) ticks exits = Inr tr \<longrightarrow>
      filter is_spawn tr = map Spawn [0..<n] \<and> spawn_count tr = n) \<and>
   harness_d (Some n) = Inr (map Spawn [0..<n * 2]) \<and>
   spawn_count (map Spawn [0..<n * 2]) = 2 * n"
  using harness_spawns[of _ _ n ticks exits tr]
  by (auto simp: harness_b_def harness_c_def harness_FN_def harness_finumpy_def harness_d_def
      spawn_count_def filter_spawn_map_Spawn simp del: upt.simps)

theorem harnesses_spawn_one_worker_per_core_but_d_witness:
  "harness_c (Some 2) ticks_to_ceiling all_exit =
     Inr [Spawn 0, Spawn 1, MonitorExit CeilingReached, Joined 0, Joined 1,
          Read Max_mem_record, Read Max_cpu_record, Read Max_mem_record,
          Read Total_counter, Read Scale_counter, Read Total_counter] \<and>
   spawn_count [Spawn 0, Spawn 1, MonitorExit CeilingReached, Joined 0, Joined 1,
          Read Max_mem_record, Read Max_cpu_record, Read Max_mem_record,
          Read Total_counter, Read Scale_counter, Read Total_counter] = 2 \<and>
   harness_b (Some 2) ticks_to_ceiling all_exit =
     Inr [Spawn 0, Spawn 1, MonitorExit CeilingReached, Joined 0, Joined 1,
          Read Max_mem_record, Read Max_mem_record,
          Read Total_counter, Read Scale_counter, Read Total_counter] \<and>
   harness_d (Some 2) = Inr [Spawn 0, Spawn 1, Spawn 2, Spawn 3]"
proof -
  have c: "harness_c (Some 2) ticks_to_ceiling all_exit =
     Inr [Spawn 0, Spawn 1, MonitorExit CeilingReached, Joined 0, Joined 1,
          Read Max_mem_record, Read Max_cpu_record, Read Max_mem_record,
          Read Total_counter, Read Scale_counter, Read Total_counter]"
    by code_simp
  have b: "harness_b (Some 2) ticks_to_ceiling all_exit =
     Inr [Spawn 0, Spawn 1, MonitorExit CeilingReached, Joined 0, Joined 1,
          Read Max_mem_record, Read Max_mem_record,
          Read Total_counter, Read Scale_counter, Read Total_counter]"
    by code_simp
  have d: "[0..<(2::nat) * 2] = [0, 1, 2, 3]"
    by code_simp
  show ?thesis
    using harnesses_spawn_one_worker_per_core_but_d [where n = 2 and ticks = ticks_to_ceiling
        and exits = all_exit, of "[Spawn 0, Spawn 1, MonitorExit CeilingReached, Joined 0, Joined 1,
          Read Max_mem_record, Read Max_cpu_record, Read Max_mem_record,
          Read Total_counter, Read Scale_counter, Read Total_counter]"] c b d
    by simp
qed

text \<open>
  Claim C6. In the harnesses of b.py, c.py, FN.py and finumpy.py, whatever the monitor
  met (the ceiling, the operator's interrupt, a sampling error, a stop set by a worker),
  every read of a shared counter or peak register by the summary comes after
  \<^verbatim>\<open>p.join()\<close> has returned for every worker started, hence after every worker has
  exited. The readings the monitor itself makes of the peak registers it owns are part
  of the monitor's run and are not reads of the summary.
\<close>

theorem summary_reads_only_after_all_joins:
  "(harness_b (Some n) ticks exits = Inr (pre @ Read f # post) \<longrightarrow>
      (\<forall>p<n. exits p \<and> Joined p \<in> set pre)) \<and>
   (harness_c (Some n) ticks exits = Inr (pre @ Read f # post) \<longrightarrow>
      (\<forall>p<n. exits p \<and> Joined p \<in> set pre)) \<and>
   (harness_FN (Some n) ticks exits = Inr (pre @ Read f # post) \<longrightarrow>
      (\<forall>p<n. exits p \<and> Joined p \<in> set pre)) \<and>
   (harness_finumpy (Some n) ticks exits = Inr (pre @ Read f # post) \<longrightarrow>
      (\<forall>p<n. exits p \<and> Joined p \<in> set pre))"
  using harness_reads_after_joins[of _ _ n ticks exits "pre @ Read f # post" pre f post]
  unfolding harness_b_def harness_c_def harness_FN_def harness_finumpy_def
  by blast

theorem summary_reads_only_after_all_joins_witness:
  "harness_c (Some 2) ticks_to_ceiling all_exit =
     Inr ([Spawn 0, Spawn 1, MonitorExit CeilingReached, Joined 0, Joined 1] @
          Read Max_mem_record #
          [Read Max_cpu_record, Read Max_mem_record,
           Read Total_counter, Read Scale_counter, Read Total_counter]) \<and>
   harness_c (Some 2) ticks_interrupted all_exit =
     Inr ([Spawn 0, Spawn 1, MonitorExit Interrupted, StopSet, Joined 0, Joined 1] @
          Read Max_mem_record #
          [Read Max_cpu_record, Read Max_mem_record,
           Read Total_counter, Read Scale_counter, Read Total_counter]) \<and>
   all_exit 0 \<and> all_exit 1 \<and>
   Joined 0 \<in> set [Spawn 0, Spawn 1, MonitorExit Interrupted, StopSet, Joined 0, Joined 1] \<and>
   Joined 1 \<in> set [Spawn 0, Spawn 1, MonitorExit Interrupted, StopSet, Joined 0, Joined 1]"
proof -
  have c: "harness_c (Some 2) ticks_to_ceiling all_exit =
     Inr ([Spawn 0, Spawn 1, MonitorExit CeilingReached, Joined 0, Joined 1] @
          Read Max_mem_record #
          [Read Max_cpu_record, Read Max_mem_record,
           Read Total_counter, Read Scale_counter, Read Total_counter])"
    by code_simp
  have i: "harness_c (Some 2) ticks_interrupted all_exit =
     Inr ([Spawn 0, Spawn 1, MonitorExit Interrupted, StopSet, Joined 0, Joined 1] @
          Read Max_mem_record #
          [Read Max_cpu_record, Read Max_mem_record,
           Read Total_counter, Read Scale_counter, Read Total_counter])"
    by code_simp
  show ?thesis
    using summary_reads_only_after_all_joins [where n = 2 and ticks = ticks_interrupted
        and exits = all_exit and f = Max_mem_record
        and pre = "[Spawn 0, Spawn 1, MonitorExit Interrupted, StopSet, Joined 0, Joined 1]"
        and post = "[Read Max_cpu_record, Read Max_mem_record,
           Read Total_counter, Read Scale_counter, Read Total_counter]"] c i
    by (simp add: all_exit_def)
qed

section \<open>Properties of the accumulator\<close>

lemma acc_inv_cases:
  "acc_inv r \<Longrightarrow> \<exists>x y. r = (Flt x, Flt y) \<and> 1 \<le> x \<and> x \<le> y \<and> y \<le> 3 * x \<and> y \<le> thr"
  by (cases r rule: acc_inv.cases) auto

lemma advance_facts:
  assumes "acc_inv r"
  shows "acc_inv (fst (advance r)) \<and>
         is_finite (snd (fst (advance r))) \<and>
         (if snd (advance r)
          then fgt (snd (fst (advance r))) (fmul (snd r) SCALE_FACTOR) \<and>
               (\<exists>y y'. snd r = Flt y \<and> snd (fst (advance r)) = Flt y' \<and> y * scl < y')
          else fgt (snd (fst (advance r))) (snd r)) \<and>
         list_all reg_ordered (advance_points r)"
proof -
  obtain x y where r: "r = (Flt x, Flt y)" and i: "1 \<le> x" "x \<le> y" "y \<le> 3 * x" "y \<le> thr"
    using acc_inv_cases[OF assms] by blast
  obtain y1 where y1: "fadd (Flt x) (Flt y) = Flt y1" and inc: "y < y1"
    and lo: "4 / 3 * (y - y / 9007199254740992) \<le> y1"
    and hi: "y1 \<le> 2 * (y + y / 9007199254740992)"
    using step_facts[OF i] by blast
  have y1': "to_double (x + y) = Flt y1" using y1 by simp
  have y_ge1: "1 \<le> y" using i by linarith
  show ?thesis
  proof (cases "thr < y1")
    case True
    obtain x2 y2 where m: "fmul (Flt y) SCALE_FACTOR = Flt x2" "fmul (Flt y1) SCALE_FACTOR = Flt y2"
      and f: "1 \<le> x2" "x2 < y2" "y2 \<le> 3 * x2" "y2 \<le> thr" "x2 \<le> y" "y * scl < y2"
      using rescale_facts[OF y_ge1 i(4) lo hi True] by blast
    have adv: "advance (Flt x, Flt y) = ((Flt x2, Flt y2), True)"
      using True by (simp add: advance_def y1' m THRESHOLD_thr Let_def)
    have pts: "advance_points (Flt x, Flt y) = [(Flt y, Flt y1), (Flt x2, Flt y1), (Flt x2, Flt y2)]"
      using True by (simp add: advance_points_def y1' m THRESHOLD_thr Let_def)
    show ?thesis
      using f i inc y_ge1 by (simp add: adv pts r m reg_ordered_def)
  next
    case False
    have adv: "advance (Flt x, Flt y) = ((Flt y, Flt y1), False)"
      using False by (simp add: advance_def y1' THRESHOLD_thr Let_def)
    have pts: "advance_points (Flt x, Flt y) = [(Flt y, Flt y1)]"
      using False by (simp add: advance_points_def y1' THRESHOLD_thr Let_def)
    have "y1 \<le> 3 * y" using hi y_ge1 by (simp add: field_simps)
    then show ?thesis
      using False i inc y_ge1 by (simp add: adv pts r reg_ordered_def)
  qed
qed

lemma acc_inv_init: "acc_inv init_regs"
  by (simp add: init_regs_def thr_def)

lemma acc_run_inv: "acc_inv (acc_run n)"
  by (induction n) (simp_all add: acc_inv_init advance_facts)

lemma acc_inv_ordered: "acc_inv r \<Longrightarrow> reg_ordered r \<and> is_finite (snd r)"
  by (cases r rule: acc_inv.cases) (auto simp: reg_ordered_def)

lemma round_half_even_of_int: "round_half_even (of_int k) = k"
  by (rule round_half_even_unique) simp

lemma to_double_exact:
  assumes lo: "2 powi e \<le> x" and hi: "x < 2 powi (e + 1)"
    and e: "- 1022 \<le> e" "e \<le> 1023"
    and k: "x / 2 powi (e - 52) = of_int k"
  shows "to_double x = Flt x"
proof -
  have x0: "0 < x"
    using lo by (smt (verit) zero_less_power_int zero_less_numeral less_le_trans)
  have ex: "exponent_of x = e" using lo hi by (rule exponent_of_unique)
  have q: "quantum x = 2 powi (e - 52)" using e by (simp add: quantum_def ex max_def)
  have q0: "(2::rat) powi (e - 52) \<noteq> 0" by simp
  have "round_mag x = of_int k * 2 powi (e - 52)"
    unfolding round_mag_def q k round_half_even_of_int ..
  also have "\<dots> = x" using k q0 by (simp add: field_simps)
  finally have rm: "round_mag x = x" .
  have "(2::rat) powi (e + 1) \<le> 2 powi 1024"
    using e by (intro power_int_increasing) simp_all
  then have "x < 2 ^ 1024" using hi by simp
  then show ?thesis using x0 rm by (simp add: to_double_def)
qed

lemma to_double_small: "to_double 2 = Flt 2" "to_double 3 = Flt 3" "to_double 5 = Flt 5"
proof -
  show "to_double 2 = Flt 2"
    by (rule to_double_exact[where e = 1 and k = "2 ^ 52"]) (simp_all add: power_int_minus)
  show "to_double 3 = Flt 3"
    by (rule to_double_exact[where e = 1 and k = "3 * 2 ^ 51"]) (simp_all add: power_int_minus)
  show "to_double 5 = Flt 5"
    by (rule to_double_exact[where e = 2 and k = "5 * 2 ^ 50"]) (simp_all add: power_int_minus)
qed

lemma to_double_two: "to_double 2 = Flt 2"
  by (rule to_double_small)

lemma first_pass: "advance (Flt 1, Flt 1) = ((Flt 1, Flt 2), False)"
  by (simp add: advance_def to_double_two THRESHOLD_thr thr_def Let_def)

lemma first_points: "advance_points (Flt 1, Flt 1) = [(Flt 1, Flt 2)]"
  by (simp add: advance_points_def to_double_two THRESHOLD_thr thr_def Let_def)




text \<open>
  Claim C1. From \<^verbatim>\<open>a, b = 1.0, 1.0\<close>, in binary64 arithmetic, the register \<^verbatim>\<open>b\<close> is
  finite after every pass. A pass that does not rescale leaves \<^verbatim>\<open>b\<close> strictly greater
  than it was; a pass that rescales leaves \<^verbatim>\<open>b\<close> strictly greater than the previous
  \<^verbatim>\<open>b\<close> times \<^verbatim>\<open>SCALE_FACTOR\<close>, whether that product is rounded as the program
  would round it (\<open>fmul\<close>) or taken exactly (\<open>scl\<close> is the rational that
  \<^verbatim>\<open>SCALE_FACTOR\<close> denotes).
\<close>

theorem accumulator_finite_and_increasing:
  "is_finite (snd (acc_run n)) \<and> is_finite (snd (acc_run (Suc n))) \<and>
   (if snd (advance (acc_run n))
    then fgt (snd (acc_run (Suc n))) (fmul (snd (acc_run n)) SCALE_FACTOR) \<and>
         (\<exists>y y'. snd (acc_run n) = Flt y \<and> snd (acc_run (Suc n)) = Flt y' \<and> y * scl < y')
    else fgt (snd (acc_run (Suc n))) (snd (acc_run n)))"
  using advance_facts[OF acc_run_inv[of n]] acc_inv_ordered[OF acc_run_inv[of n]]
  by (cases "snd (advance (acc_run n))") auto

theorem accumulator_finite_and_increasing_witness:
  "acc_run 0 = (Flt 1, Flt 1) \<and> acc_run (Suc 0) = (Flt 1, Flt 2) \<and>
   \<not> snd (advance (acc_run 0)) \<and> is_finite (snd (acc_run (Suc 0))) \<and>
   fgt (snd (acc_run (Suc 0))) (snd (acc_run 0))"
  using accumulator_finite_and_increasing[of 0] by (simp add: first_pass init_regs_def)

text \<open>
  Claim C9. At every point of the accumulator's execution from \<^verbatim>\<open>a, b = 1.0, 1.0\<close> the
  registers satisfy \<^verbatim>\<open>0 < a <= b\<close>: before each pass, after the assignment
  \<^verbatim>\<open>a, b = b, a + b\<close>, and on a rescaling pass after \<^verbatim>\<open>a *= SCALE_FACTOR\<close> and after
  \<^verbatim>\<open>b *= SCALE_FACTOR\<close>; the last of these points is the state before the next pass.
\<close>

theorem registers_stay_ordered:
  "list_all reg_ordered (acc_run n # advance_points (acc_run n)) \<and>
   last (advance_points (acc_run n)) = acc_run (Suc n)"
  using advance_facts[OF acc_run_inv[of n]] acc_inv_ordered[OF acc_run_inv[of n]]
  by (simp add: advance_points_def advance_def Let_def)

theorem registers_stay_ordered_witness:
  "acc_run 0 # advance_points (acc_run 0) = [(Flt 1, Flt 1), (Flt 1, Flt 2)] \<and>
   reg_ordered (Flt 1, Flt 1) \<and> reg_ordered (Flt 1, Flt 2)"
  using registers_stay_ordered[of 0] by (simp add: first_points first_pass init_regs_def)

section \<open>Properties of the workers\<close>

lemma accumulate_fields:
  "history (accumulate s) = history s" "local_added (accumulate s) = local_added s"
  by (simp_all add: accumulate_def Let_def split: prod.splits)

lemma accumulate_tracks: "tracks s n \<Longrightarrow> tracks (accumulate s) (Suc n)"
  by (auto simp: tracks_def accumulate_def Let_def split: prod.splits)

lemma tracks_history [simp]: "tracks (s\<lparr>history := h\<rparr>) n = tracks s n"
  by (simp add: tracks_def)

lemma tracks_added [simp]: "tracks (s\<lparr>local_added := h\<rparr>) n = tracks s n"
  by (simp add: tracks_def)

lemma batch_result:
  assumes "batch item k env s = (e, s')"
  shows "local_added s' = local_added s \<and>
         length (history s) \<le> length (history s') \<and>
         (\<forall>j. length (history s) \<le> j \<and> j < length (history s') \<longrightarrow> alloc_ok env j) \<and>
         (e = None \<longrightarrow> length (history s') = length (history s) + k) \<and>
         (e \<noteq> None \<longrightarrow> e = Some MemoryError \<and> length (history s') < length (history s) + k \<and>
              \<not> alloc_ok env (length (history s'))) \<and>
         (tracks s (length (history s)) \<longrightarrow>
            tracks s' (length (history s') + (if e = None then 0 else 1)))"
  using assms
proof (induction k arbitrary: s)
  case 0
  then show ?case by auto
next
  case (Suc k)
  let ?s1 = "accumulate s"
  show ?case
  proof (cases "alloc_ok env (length (history ?s1))")
    case True
    let ?s2 = "?s1\<lparr>history := history ?s1 @ [item ?s1]\<rparr>"
    have b: "batch item k env ?s2 = (e, s')" using Suc.prems True by (simp add: Let_def)
    note ih = Suc.IH[OF b]
    have len: "length (history ?s2) = Suc (length (history s))" by (simp add: accumulate_fields)
    have tr: "tracks s (length (history s)) \<Longrightarrow> tracks ?s2 (length (history ?s2))"
      using accumulate_tracks[of s "length (history s)"] by (simp add: accumulate_fields)
    have al: "alloc_ok env (length (history s))" using True by (simp add: accumulate_fields)
    have "\<forall>j. length (history s) \<le> j \<and> j < length (history s') \<longrightarrow> alloc_ok env j"
    proof (intro allI impI)
      fix j assume j: "length (history s) \<le> j \<and> j < length (history s')"
      show "alloc_ok env j"
      proof (cases "j = length (history s)")
        case True
        then show ?thesis using al by simp
      next
        case False
        then show ?thesis using ih j len by auto
      qed
    qed
    then show ?thesis using ih len tr by (auto simp: accumulate_fields)
  next
    case False
    then have "e = Some MemoryError" "s' = ?s1" using Suc.prems by (simp_all add: Let_def)
    then show ?thesis
      using False accumulate_tracks[of s "length (history s)"] by (auto simp: accumulate_fields)
  qed
qed


lemma dvd_window:
  fixes a b B :: nat
  assumes "B dvd a" "a \<le> b" "b < a + B"
  shows "(b div B) * B = a"
proof -
  obtain q where q: "a = B * q" using assms(1) by (auto simp: dvd_def)
  have B0: "0 < B" using assms by (cases B) auto
  define r where "r = b - a"
  have r: "b = r + q * B" "r < B" using assms q by (simp_all add: r_def)
  have "b div B = q" using r B0 by simp
  then show ?thesis using q by simp
qed

lemma dvd_window_eq:
  fixes a m B :: nat
  assumes "B dvd a" "B dvd m" "a \<le> m" "m < a + B"
  shows "m = a"
proof -
  have "(m div B) * B = a" using dvd_window[OF assms(1,3,4)] .
  moreover have "(m div B) * B = m" using assms(2) by simp
  ultimately show ?thesis by simp
qed

lemma BATCH_SIZE_pos: "0 < BATCH_SIZE"
  by (simp add: BATCH_SIZE_def)

lemma at_head_init: "at_head init_wstate"
  by (simp add: at_head_def init_wstate_def tracks_def init_regs_def)

lemma at_head_next:
  assumes "at_head s" "batch item BATCH_SIZE env s = (None, s1)"
  shows "at_head (s1\<lparr>local_added := local_added s1 + BATCH_SIZE\<rparr>) \<and>
         length (history s1) = length (history s) + BATCH_SIZE \<and>
         (\<forall>j. length (history s) \<le> j \<and> j < length (history s1) \<longrightarrow> alloc_ok env j)"
  using batch_result[OF assms(2)] assms(1) by (auto simp: at_head_def)

lemma batch_failed:
  assumes "at_head s" "batch item BATCH_SIZE env s = (Some x, s1)"
  shows "x = MemoryError"
    and "local_added s1 = (length (history s1) div BATCH_SIZE) * BATCH_SIZE"
    and "tracks s1 (length (history s1) + 1)"
    and "\<not> alloc_ok env (length (history s1))"
    and "length (history s) \<le> length (history s1)"
    and "length (history s1) < length (history s) + BATCH_SIZE"
    and "\<forall>j. length (history s) \<le> j \<and> j < length (history s1) \<longrightarrow> alloc_ok env j"
proof -
  note b = batch_result[OF assms(2)]
  have dv: "BATCH_SIZE dvd length (history s)" and la: "local_added s = length (history s)"
    and tr: "tracks s (length (history s))"
    using assms(1) by (simp_all add: at_head_def)
  show x: "x = MemoryError" using b by simp
  show le: "length (history s) \<le> length (history s1)" using b by simp
  show lt: "length (history s1) < length (history s) + BATCH_SIZE" using b by simp
  have "(length (history s1) div BATCH_SIZE) * BATCH_SIZE = length (history s)"
    using dv le lt by (rule dvd_window)
  moreover have "local_added s1 = local_added s" using b by simp
  ultimately show "local_added s1 = (length (history s1) div BATCH_SIZE) * BATCH_SIZE"
    using la by simp
  show "tracks s1 (length (history s1) + 1)" using b tr by simp
  show "\<not> alloc_ok env (length (history s1))" using b by simp
  show "\<forall>j. length (history s) \<le> j \<and> j < length (history s1) \<longrightarrow> alloc_ok env j"
    using b by simp
qed

lemma loop_real_result:
  assumes "loop_real fuel env s = Some (e, s')" "at_head s"
  shows "local_added s' = (length (history s') div BATCH_SIZE) * BATCH_SIZE \<and>
         tracks s' (length (history s') + (if e = None then 0 else 1)) \<and>
         (e = None \<longrightarrow> is_set env (length (history s')) \<and> at_head s') \<and>
         (e \<noteq> None \<longrightarrow> e = Some MemoryError \<and> \<not> alloc_ok env (length (history s'))) \<and>
         length (history s) \<le> length (history s') \<and>
         (\<forall>j. length (history s) \<le> j \<and> j < length (history s') \<longrightarrow> alloc_ok env j) \<and>
         (\<forall>m. length (history s) \<le> m \<and> BATCH_SIZE dvd m \<and>
              (m < length (history s') \<or> (m = length (history s') \<and> e \<noteq> None)) \<longrightarrow> \<not> is_set env m)"
  using assms
proof (induction fuel arbitrary: s)
  case 0
  then show ?case by simp
next
  case (Suc fuel)
  note hd = Suc.prems(2)
  have dv: "BATCH_SIZE dvd length (history s)" using hd by (simp add: at_head_def)
  show ?case
  proof (cases "is_set env (length (history s))")
    case True
    then have "e = None" "s' = s" using Suc.prems(1) by simp_all
    then show ?thesis using True hd by (auto simp: at_head_def)
  next
    case False
    obtain eb s1 where b: "batch new_buffer BATCH_SIZE env s = (eb, s1)"
      by (cases "batch new_buffer BATCH_SIZE env s")
    show ?thesis
    proof (cases eb)
      case (Some x)
      then have es: "e = Some x" "s' = s1" using Suc.prems(1) False b by simp_all
      note f = batch_failed[OF hd b[unfolded Some]]
      have "\<forall>m. length (history s) \<le> m \<and> BATCH_SIZE dvd m \<and>
              (m < length (history s1) \<or> (m = length (history s1) \<and> e \<noteq> None)) \<longrightarrow> \<not> is_set env m"
      proof (intro allI impI)
        fix m assume m: "length (history s) \<le> m \<and> BATCH_SIZE dvd m \<and>
              (m < length (history s1) \<or> (m = length (history s1) \<and> e \<noteq> None))"
        then have "m \<le> length (history s1)" by auto
        then have "m < length (history s) + BATCH_SIZE" using f(6) by simp
        moreover have "BATCH_SIZE dvd m" "length (history s) \<le> m" using m by simp_all
        ultimately have "m = length (history s)" using dvd_window_eq[OF dv] by blast
        then show "\<not> is_set env m" using False by simp
      qed
      then show ?thesis using f es by simp
    next
      case None
      let ?s2 = "s1\<lparr>local_added := local_added s1 + BATCH_SIZE\<rparr>"
      note n = at_head_next[OF hd b[unfolded None]]
      have hd2: "at_head ?s2" using n by blast
      have len2: "length (history ?s2) = length (history s) + BATCH_SIZE" using n by simp
      have early: "\<forall>m. length (history s) \<le> m \<and> BATCH_SIZE dvd m \<and> m < length (history ?s2) \<longrightarrow> \<not> is_set env m"
      proof (intro allI impI)
        fix m assume m: "length (history s) \<le> m \<and> BATCH_SIZE dvd m \<and> m < length (history ?s2)"
        then have "m = length (history s)" using dvd_window_eq[OF dv] len2 by auto
        then show "\<not> is_set env m" using False by simp
      qed
      have r: "loop_real fuel env ?s2 = Some (e, s')" using Suc.prems(1) False b None by simp
      note ih = Suc.IH[OF r hd2]
      have c5: "length (history s) \<le> length (history s')" using ih len2 by linarith
        have c6: "\<forall>j. length (history s) \<le> j \<and> j < length (history s') \<longrightarrow> alloc_ok env j"
        proof (intro allI impI)
          fix j assume j: "length (history s) \<le> j \<and> j < length (history s')"
          show "alloc_ok env j"
          proof (cases "j < length (history ?s2)")
            case True
            then show ?thesis using n j by simp
          next
            case False
            then show ?thesis using ih j by simp
          qed
        qed
        have c7: "\<forall>m. length (history s) \<le> m \<and> BATCH_SIZE dvd m \<and>
              (m < length (history s') \<or> (m = length (history s') \<and> e \<noteq> None)) \<longrightarrow> \<not> is_set env m"
        proof (intro allI impI)
          fix m assume m: "length (history s) \<le> m \<and> BATCH_SIZE dvd m \<and>
              (m < length (history s') \<or> (m = length (history s') \<and> e \<noteq> None))"
          show "\<not> is_set env m"
          proof (cases "m < length (history ?s2)")
            case True
            then show ?thesis using early m by blast
          next
            case False
            then have "length (history ?s2) \<le> m" by simp
            then show ?thesis using ih m by blast
          qed
        qed
        show ?thesis using ih c5 c6 c7 by (elim conjE) (intro conjI; assumption)
    qed
  qed
qed

lemma loop_real_terminates:
  assumes "at_head s" "length (history s) \<le> m" "m < length (history s) + fuel * BATCH_SIZE"
    and "\<not> alloc_ok env m \<or> (BATCH_SIZE dvd m \<and> is_set env m)"
  shows "\<exists>r. loop_real fuel env s = Some r"
  using assms
proof (induction fuel arbitrary: s)
  case 0
  then show ?case by simp
next
  case (Suc fuel)
  note hd = Suc.prems(1)
  have dv: "BATCH_SIZE dvd length (history s)" using hd by (simp add: at_head_def)
  show ?case
  proof (cases "is_set env (length (history s))")
    case True
    then show ?thesis by simp
  next
    case False
    obtain eb s1 where b: "batch new_buffer BATCH_SIZE env s = (eb, s1)"
      by (cases "batch new_buffer BATCH_SIZE env s")
    show ?thesis
    proof (cases eb)
      case (Some x)
      then show ?thesis using False b by simp
    next
      case None
      let ?s2 = "s1\<lparr>local_added := local_added s1 + BATCH_SIZE\<rparr>"
      note n = at_head_next[OF hd b[unfolded None]]
      have hd2: "at_head ?s2" using n by blast
      have len2: "length (history ?s2) = length (history s) + BATCH_SIZE" using n by simp
      have "length (history ?s2) \<le> m"
      proof (rule ccontr)
        assume "\<not> length (history ?s2) \<le> m"
        then have lt: "m < length (history s) + BATCH_SIZE" using len2 by simp
        then have "alloc_ok env m" using n Suc.prems(2) by auto
        then have "BATCH_SIZE dvd m \<and> is_set env m" using Suc.prems(4) by blast
        moreover then have "m = length (history s)" using dvd_window_eq[OF dv _ Suc.prems(2) lt] by blast
        ultimately show False using False by simp
      qed
      moreover have "m < length (history ?s2) + fuel * BATCH_SIZE" using Suc.prems(3) len2 by simp
      ultimately have "\<exists>r. loop_real fuel env ?s2 = Some r"
        using Suc.IH[OF hd2 _ _ Suc.prems(4)] by blast
      then show ?thesis using False b None by (auto simp: Let_def)
    qed
  qed
qed

lemma loop_safe_result:
  assumes "loop_safe fuel env s = Some (e, s')" "at_head s"
  shows "local_added s' = (length (history s') div BATCH_SIZE) * BATCH_SIZE \<and>
         tracks s' (length (history s') + (if e = None then 0 else 1)) \<and>
         (e = None \<longrightarrow> is_set env (length (history s')) \<and> at_head s') \<and>
         (e \<noteq> None \<longrightarrow> e = Some MemoryError \<and> \<not> alloc_ok env (length (history s'))) \<and>
         length (history s) \<le> length (history s') \<and>
         (\<forall>j. length (history s) \<le> j \<and> j < length (history s') \<longrightarrow> alloc_ok env j) \<and>
         (\<forall>m. length (history s) \<le> m \<and> BATCH_SIZE dvd m \<and>
              (m < length (history s') \<or> (m = length (history s') \<and> e \<noteq> None)) \<longrightarrow> \<not> is_set env m)"
  using assms
proof (induction fuel arbitrary: s)
  case 0
  then show ?case by simp
next
  case (Suc fuel)
  note hd = Suc.prems(2)
  have dv: "BATCH_SIZE dvd length (history s)" using hd by (simp add: at_head_def)
  show ?case
  proof (cases "is_set env (length (history s))")
    case True
    then have "e = None" "s' = s" using Suc.prems(1) by simp_all
    then show ?thesis using True hd by (auto simp: at_head_def)
  next
    case False
    obtain eb s1 where b: "batch produced BATCH_SIZE env s = (eb, s1)"
      by (cases "batch produced BATCH_SIZE env s")
    show ?thesis
    proof (cases eb)
      case (Some x)
      then have es: "e = Some x" "s' = s1" using Suc.prems(1) False b by simp_all
      note f = batch_failed[OF hd b[unfolded Some]]
      have "\<forall>m. length (history s) \<le> m \<and> BATCH_SIZE dvd m \<and>
              (m < length (history s1) \<or> (m = length (history s1) \<and> e \<noteq> None)) \<longrightarrow> \<not> is_set env m"
      proof (intro allI impI)
        fix m assume m: "length (history s) \<le> m \<and> BATCH_SIZE dvd m \<and>
              (m < length (history s1) \<or> (m = length (history s1) \<and> e \<noteq> None))"
        then have "m \<le> length (history s1)" by auto
        then have "m < length (history s) + BATCH_SIZE" using f(6) by simp
        moreover have "BATCH_SIZE dvd m" "length (history s) \<le> m" using m by simp_all
        ultimately have "m = length (history s)" using dvd_window_eq[OF dv] by blast
        then show "\<not> is_set env m" using False by simp
      qed
      then show ?thesis using f es by simp
    next
      case None
      let ?s2 = "s1\<lparr>local_added := local_added s1 + BATCH_SIZE\<rparr>"
      note n = at_head_next[OF hd b[unfolded None]]
      have hd2: "at_head ?s2" using n by blast
      have len2: "length (history ?s2) = length (history s) + BATCH_SIZE" using n by simp
      have early: "\<forall>m. length (history s) \<le> m \<and> BATCH_SIZE dvd m \<and> m < length (history ?s2) \<longrightarrow> \<not> is_set env m"
      proof (intro allI impI)
        fix m assume m: "length (history s) \<le> m \<and> BATCH_SIZE dvd m \<and> m < length (history ?s2)"
        then have "m = length (history s)" using dvd_window_eq[OF dv] len2 by auto
        then show "\<not> is_set env m" using False by simp
      qed
      show ?thesis
      proof (cases "is_set env (length (history ?s2))")
        case True
        then have es: "e = None" "s' = ?s2" using Suc.prems(1) False b None by (simp_all add: Let_def)
        have la: "local_added ?s2 = (length (history ?s2) div BATCH_SIZE) * BATCH_SIZE"
          and tr: "tracks ?s2 (length (history ?s2))"
          using hd2 by (simp_all add: at_head_def)
        have le: "length (history s) \<le> length (history ?s2)" using len2 by simp
        have al: "\<forall>j. length (history s) \<le> j \<and> j < length (history ?s2) \<longrightarrow> alloc_ok env j"
          using n by simp
        have "local_added ?s2 = (length (history ?s2) div BATCH_SIZE) * BATCH_SIZE \<and>
          tracks ?s2 (length (history ?s2) + (if (None::py_exception option) = None then 0 else 1)) \<and>
          ((None::py_exception option) = None \<longrightarrow> is_set env (length (history ?s2)) \<and> at_head ?s2) \<and>
          ((None::py_exception option) \<noteq> None \<longrightarrow> (None::py_exception option) = Some MemoryError \<and> \<not> alloc_ok env (length (history ?s2))) \<and>
          length (history s) \<le> length (history ?s2) \<and>
          (\<forall>j. length (history s) \<le> j \<and> j < length (history ?s2) \<longrightarrow> alloc_ok env j) \<and>
          (\<forall>m. length (history s) \<le> m \<and> BATCH_SIZE dvd m \<and>
              (m < length (history ?s2) \<or> (m = length (history ?s2) \<and> (None::py_exception option) \<noteq> None)) \<longrightarrow> \<not> is_set env m)"
          using la tr True hd2 le al early by (intro conjI) simp_all
        then show ?thesis unfolding es .
      next
        case F2: False
        have r: "loop_safe fuel env ?s2 = Some (e, s')" using Suc.prems(1) False b None F2 by (simp add: Let_def)
        note ih = Suc.IH[OF r hd2]
        have c5: "length (history s) \<le> length (history s')" using ih len2 by linarith
        have c6: "\<forall>j. length (history s) \<le> j \<and> j < length (history s') \<longrightarrow> alloc_ok env j"
        proof (intro allI impI)
          fix j assume j: "length (history s) \<le> j \<and> j < length (history s')"
          show "alloc_ok env j"
          proof (cases "j < length (history ?s2)")
            case True
            then show ?thesis using n j by simp
          next
            case False
            then show ?thesis using ih j by simp
          qed
        qed
        have c7: "\<forall>m. length (history s) \<le> m \<and> BATCH_SIZE dvd m \<and>
              (m < length (history s') \<or> (m = length (history s') \<and> e \<noteq> None)) \<longrightarrow> \<not> is_set env m"
        proof (intro allI impI)
          fix m assume m: "length (history s) \<le> m \<and> BATCH_SIZE dvd m \<and>
              (m < length (history s') \<or> (m = length (history s') \<and> e \<noteq> None))"
          show "\<not> is_set env m"
          proof (cases "m < length (history ?s2)")
            case True
            then show ?thesis using early m by blast
          next
            case False
            then have "length (history ?s2) \<le> m" by simp
            then show ?thesis using ih m by blast
          qed
        qed
        show ?thesis using ih c5 c6 c7 by (elim conjE) (intro conjI; assumption)
      qed
    qed
  qed
qed

lemma loop_safe_terminates:
  assumes "at_head s" "length (history s) \<le> m" "m < length (history s) + fuel * BATCH_SIZE"
    and "\<not> alloc_ok env m \<or> (BATCH_SIZE dvd m \<and> is_set env m)"
  shows "\<exists>r. loop_safe fuel env s = Some r"
  using assms
proof (induction fuel arbitrary: s)
  case 0
  then show ?case by simp
next
  case (Suc fuel)
  note hd = Suc.prems(1)
  have dv: "BATCH_SIZE dvd length (history s)" using hd by (simp add: at_head_def)
  show ?case
  proof (cases "is_set env (length (history s))")
    case True
    then show ?thesis by simp
  next
    case False
    obtain eb s1 where b: "batch produced BATCH_SIZE env s = (eb, s1)"
      by (cases "batch produced BATCH_SIZE env s")
    show ?thesis
    proof (cases eb)
      case (Some x)
      then show ?thesis using False b by simp
    next
      case None
      let ?s2 = "s1\<lparr>local_added := local_added s1 + BATCH_SIZE\<rparr>"
      note n = at_head_next[OF hd b[unfolded None]]
      have hd2: "at_head ?s2" using n by blast
      have len2: "length (history ?s2) = length (history s) + BATCH_SIZE" using n by simp
      have "length (history ?s2) \<le> m"
      proof (rule ccontr)
        assume "\<not> length (history ?s2) \<le> m"
        then have lt: "m < length (history s) + BATCH_SIZE" using len2 by simp
        then have "alloc_ok env m" using n Suc.prems(2) by auto
        then have "BATCH_SIZE dvd m \<and> is_set env m" using Suc.prems(4) by blast
        moreover then have "m = length (history s)" using dvd_window_eq[OF dv _ Suc.prems(2) lt] by blast
        ultimately show False using False by simp
      qed
      moreover have "m < length (history ?s2) + fuel * BATCH_SIZE" using Suc.prems(3) len2 by simp
      ultimately have "\<exists>r. loop_safe fuel env ?s2 = Some r"
        using Suc.IH[OF hd2 _ _ Suc.prems(4)] by blast
      then show ?thesis using False b None by (auto simp: Let_def)
    qed
  qed
qed

lemma dense_inv_init: "dense_inv init_dstate" "bytes_inv init_dstate"
  by (simp_all add: dense_inv_def bytes_inv_def init_dstate_def)

lemma loop_matrix_result:
  assumes "loop_matrix fuel env s = Some (e, s')" "dense_inv s"
  shows "dense_inv s' \<and> local_count s \<le> local_count s' \<and>
         (bytes_inv s \<longrightarrow> bytes_inv s') \<and>
         (\<forall>j. local_count s \<le> j \<and> j < local_count s' \<longrightarrow> alloc_ok env j \<and> \<not> is_set env j) \<and>
         (e = None \<longrightarrow> is_set env (local_count s')) \<and>
         (e \<noteq> None \<longrightarrow> e = Some MemoryError \<and> \<not> alloc_ok env (local_count s') \<and>
              \<not> is_set env (local_count s'))"
  using assms
proof (induction fuel arbitrary: s)
  case 0
  then show ?case by simp
next
  case (Suc fuel)
  note di = Suc.prems(2)
  have st: "stored s = local_count s" using di by (simp add: dense_inv_def)
  show ?case
  proof (cases "is_set env (local_count s)")
    case True
    then have "e = None" "s' = s" using Suc.prems(1) by simp_all
    then show ?thesis using True di by auto
  next
    case F1: False
    show ?thesis
    proof (cases "alloc_ok env (local_count s)")
      case False
      then have "e = Some MemoryError" "s' = s" using Suc.prems(1) F1 st by simp_all
      then show ?thesis using False F1 di by auto
    next
      case True
      let ?s1 = "s\<lparr>stored := stored s + 1, local_count := local_count s + 1,
                        local_bytes := local_bytes s + size_per_step\<rparr>"
      have d1: "dense_inv ?s1" using di by (simp add: dense_inv_def)
      have b1: "bytes_inv s \<longrightarrow> bytes_inv ?s1" by (simp add: bytes_inv_def)
      have c1: "local_count ?s1 = Suc (local_count s)" by simp
      have first: "\<forall>j. local_count s \<le> j \<and> j < local_count ?s1 \<longrightarrow> alloc_ok env j \<and> \<not> is_set env j"
      proof (intro allI impI)
        fix j assume "local_count s \<le> j \<and> j < local_count ?s1"
        then have "j = local_count s" by simp
        then show "alloc_ok env j \<and> \<not> is_set env j" using True F1 by simp
      qed
      show ?thesis
      proof (cases "local_count ?s1 mod 10 = 0 \<and> is_set env (local_count ?s1)")
        case T2: True
        then have es: "e = None" "s' = ?s1" using Suc.prems(1) F1 True st by (auto simp: Let_def split: if_splits)
        have "dense_inv ?s1 \<and> local_count s \<le> local_count ?s1 \<and>
         (bytes_inv s \<longrightarrow> bytes_inv ?s1) \<and>
         (\<forall>j. local_count s \<le> j \<and> j < local_count ?s1 \<longrightarrow> alloc_ok env j \<and> \<not> is_set env j) \<and>
         ((None::py_exception option) = None \<longrightarrow> is_set env (local_count ?s1)) \<and>
         ((None::py_exception option) \<noteq> None \<longrightarrow> (None::py_exception option) = Some MemoryError \<and> \<not> alloc_ok env (local_count ?s1) \<and>
              \<not> is_set env (local_count ?s1))"
          using d1 b1 first T2 by (intro conjI) simp_all
        then show ?thesis unfolding es .
      next
        case F2: False
        have r: "loop_matrix fuel env ?s1 = Some (e, s')"
          using Suc.prems(1) F1 True st F2 by (auto simp: Let_def split: if_splits)
        note ih = Suc.IH[OF r d1]
        have c2: "local_count s \<le> local_count s'" using ih c1 by linarith
        have c3: "bytes_inv s \<longrightarrow> bytes_inv s'" using ih b1 by blast
        have c4: "\<forall>j. local_count s \<le> j \<and> j < local_count s' \<longrightarrow> alloc_ok env j \<and> \<not> is_set env j"
        proof (intro allI impI)
          fix j assume j: "local_count s \<le> j \<and> j < local_count s'"
          show "alloc_ok env j \<and> \<not> is_set env j"
          proof (cases "j < local_count ?s1")
            case True
            then show ?thesis using first j by blast
          next
            case False
            then have "local_count ?s1 \<le> j" by simp
            then show ?thesis using ih j by blast
          qed
        qed
        show ?thesis using ih c2 c3 c4 by (elim conjE) (intro conjI; assumption)
      qed
    qed
  qed
qed

lemma loop_matrix_terminates:
  assumes "dense_inv s" "local_count s \<le> m" "m < local_count s + fuel"
    and "\<not> alloc_ok env m \<or> is_set env m"
  shows "\<exists>r. loop_matrix fuel env s = Some r"
  using assms
proof (induction fuel arbitrary: s)
  case 0
  then show ?case by simp
next
  case (Suc fuel)
  have st: "stored s = local_count s" using Suc.prems(1) by (simp add: dense_inv_def)
  show ?case
  proof (cases "is_set env (local_count s) \<or> \<not> alloc_ok env (local_count s)")
    case True
    then show ?thesis using st by auto
  next
    case False
    let ?s1 = "s\<lparr>stored := stored s + 1, local_count := local_count s + 1,
                        local_bytes := local_bytes s + size_per_step\<rparr>"
    have d1: "dense_inv ?s1" using Suc.prems(1) by (simp add: dense_inv_def)
    have "m \<noteq> local_count s" using False Suc.prems(4) by auto
    then have "local_count ?s1 \<le> m" "m < local_count ?s1 + fuel" using Suc.prems(2,3) by simp_all
    then have "\<exists>r. loop_matrix fuel env ?s1 = Some r"
      using Suc.IH[OF d1 _ _ Suc.prems(4)] by blast
    then show ?thesis using False st by (auto simp: Let_def)
  qed
qed

lemma loop_numpy_result:
  assumes "loop_numpy fuel env s = Some (e, s')" "dense_inv s"
  shows "dense_inv s' \<and> local_count s \<le> local_count s' \<and>
         (\<forall>j. local_count s \<le> j \<and> j < local_count s' \<longrightarrow> alloc_ok env j \<and> \<not> is_set env j) \<and>
         (e = None \<longrightarrow> is_set env (local_count s')) \<and>
         (e \<noteq> None \<longrightarrow> e = Some MemoryError \<and> \<not> alloc_ok env (local_count s') \<and>
              \<not> is_set env (local_count s'))"
  using assms
proof (induction fuel arbitrary: s)
  case 0
  then show ?case by simp
next
  case (Suc fuel)
  note di = Suc.prems(2)
  have st: "stored s = local_count s" using di by (simp add: dense_inv_def)
  show ?case
  proof (cases "is_set env (local_count s)")
    case True
    then have "e = None" "s' = s" using Suc.prems(1) by simp_all
    then show ?thesis using True di by auto
  next
    case F1: False
    show ?thesis
    proof (cases "alloc_ok env (local_count s)")
      case False
      then have "e = Some MemoryError" "s' = s" using Suc.prems(1) F1 st by simp_all
      then show ?thesis using False F1 di by auto
    next
      case True
      let ?s1 = "s\<lparr>stored := stored s + 1, local_count := local_count s + 1\<rparr>"
      have d1: "dense_inv ?s1" using di by (simp add: dense_inv_def)
      have c1: "local_count ?s1 = Suc (local_count s)" by simp
      have first: "\<forall>j. local_count s \<le> j \<and> j < local_count ?s1 \<longrightarrow> alloc_ok env j \<and> \<not> is_set env j"
      proof (intro allI impI)
        fix j assume "local_count s \<le> j \<and> j < local_count ?s1"
        then have "j = local_count s" by simp
        then show "alloc_ok env j \<and> \<not> is_set env j" using True F1 by simp
      qed
      show ?thesis
      proof (cases "is_set env (local_count ?s1)")
        case T2: True
        then have es: "e = None" "s' = ?s1" using Suc.prems(1) F1 True st by (auto simp: Let_def split: if_splits)
        have "dense_inv ?s1 \<and> local_count s \<le> local_count ?s1 \<and>
         (\<forall>j. local_count s \<le> j \<and> j < local_count ?s1 \<longrightarrow> alloc_ok env j \<and> \<not> is_set env j) \<and>
         ((None::py_exception option) = None \<longrightarrow> is_set env (local_count ?s1)) \<and>
         ((None::py_exception option) \<noteq> None \<longrightarrow> (None::py_exception option) = Some MemoryError \<and> \<not> alloc_ok env (local_count ?s1) \<and>
              \<not> is_set env (local_count ?s1))"
          using d1 first T2 by (intro conjI) simp_all
        then show ?thesis unfolding es .
      next
        case F2: False
        have r: "loop_numpy fuel env ?s1 = Some (e, s')"
          using Suc.prems(1) F1 True st F2 by (auto simp: Let_def split: if_splits)
        note ih = Suc.IH[OF r d1]
        have c2: "local_count s \<le> local_count s'" using ih c1 by linarith
        have c4: "\<forall>j. local_count s \<le> j \<and> j < local_count s' \<longrightarrow> alloc_ok env j \<and> \<not> is_set env j"
        proof (intro allI impI)
          fix j assume j: "local_count s \<le> j \<and> j < local_count s'"
          show "alloc_ok env j \<and> \<not> is_set env j"
          proof (cases "j < local_count ?s1")
            case True
            then show ?thesis using first j by blast
          next
            case False
            then have "local_count ?s1 \<le> j" by simp
            then show ?thesis using ih j by blast
          qed
        qed
        show ?thesis using ih c2 c4 by (elim conjE) (intro conjI; assumption)
      qed
    qed
  qed
qed

lemma loop_numpy_terminates:
  assumes "dense_inv s" "local_count s \<le> m" "m < local_count s + fuel"
    and "\<not> alloc_ok env m \<or> is_set env m"
  shows "\<exists>r. loop_numpy fuel env s = Some r"
  using assms
proof (induction fuel arbitrary: s)
  case 0
  then show ?case by simp
next
  case (Suc fuel)
  have st: "stored s = local_count s" using Suc.prems(1) by (simp add: dense_inv_def)
  show ?case
  proof (cases "is_set env (local_count s) \<or> \<not> alloc_ok env (local_count s)")
    case True
    then show ?thesis using st by auto
  next
    case False
    let ?s1 = "s\<lparr>stored := stored s + 1, local_count := local_count s + 1\<rparr>"
    have d1: "dense_inv ?s1" using Suc.prems(1) by (simp add: dense_inv_def)
    have "m \<noteq> local_count s" using False Suc.prems(4) by auto
    then have "local_count ?s1 \<le> m" "m < local_count ?s1 + fuel" using Suc.prems(2,3) by simp_all
    then have "\<exists>r. loop_numpy fuel env ?s1 = Some r"
      using Suc.IH[OF d1 _ _ Suc.prems(4)] by blast
    then show ?thesis using False st by (auto simp: Let_def)
  qed
qed

lemma next_multiple:
  fixes B T :: nat
  assumes "0 < B"
  shows "\<exists>m. B dvd m \<and> T \<le> m \<and> m < T + B"
proof (cases "T mod B = 0")
  case True
  then show ?thesis using assms by (intro exI[of _ T]) auto
next
  case False
  define m where "m = T - T mod B + B"
  have "B dvd (T - T mod B)" by (rule dvd_minus_mod)
  then have "B dvd m" unfolding m_def by (rule dvd_add) (rule dvd_refl)
  moreover have "T mod B < B" using assms by simp
  then have "T \<le> m" unfolding m_def by linarith
  moreover have "T mod B \<le> T" by (rule mod_less_eq_dividend)
  then have "m < T + B" using False unfolding m_def by linarith
  ultimately show ?thesis by blast
qed

lemma fuel_enough: "T < fuel \<Longrightarrow> m < T + BATCH_SIZE \<Longrightarrow> m < fuel * BATCH_SIZE"
proof -
  assume a: "T < fuel" "m < T + BATCH_SIZE"
  have "Suc T * BATCH_SIZE \<le> fuel * BATCH_SIZE" using a(1) by (intro mult_le_mono1) simp
  moreover have "T + BATCH_SIZE \<le> Suc T * BATCH_SIZE" using BATCH_SIZE_pos
    by (cases BATCH_SIZE) simp_all
  ultimately show ?thesis using a(2) by linarith
qed

lemma loop_real_stops:
  assumes "\<forall>t\<ge>T. is_set env t" "T < fuel"
  shows "\<exists>e s'. loop_real fuel env init_wstate = Some (e, s') \<and> length (history s') < T + BATCH_SIZE"
proof -
  obtain m where m: "BATCH_SIZE dvd m" "T \<le> m" "m < T + BATCH_SIZE"
    using next_multiple[OF BATCH_SIZE_pos] by blast
  have set: "is_set env m" using assms(1) m(2) by simp
  have len0: "length (history (init_wstate :: buffer wstate)) = 0" by (simp add: init_wstate_def)
  have "m < length (history (init_wstate :: buffer wstate)) + fuel * BATCH_SIZE"
    using fuel_enough[OF assms(2) m(3)] by simp
  then obtain e s' where r: "loop_real fuel env init_wstate = Some (e, s')"
    using loop_real_terminates[OF at_head_init, of m fuel env] set m(1) len0 by fastforce
  note f = loop_real_result[OF r at_head_init]
  have "\<not> m < length (history s')"
  proof
    assume "m < length (history s')"
    then have "\<not> is_set env m" using f m(1) len0 by simp
    then show False using set by simp
  qed
  then show ?thesis using r m(3) by auto
qed

lemma loop_safe_stops:
  assumes "\<forall>t\<ge>T. is_set env t" "T < fuel"
  shows "\<exists>e s'. loop_safe fuel env init_wstate = Some (e, s') \<and> length (history s') < T + BATCH_SIZE"
proof -
  obtain m where m: "BATCH_SIZE dvd m" "T \<le> m" "m < T + BATCH_SIZE"
    using next_multiple[OF BATCH_SIZE_pos] by blast
  have set: "is_set env m" using assms(1) m(2) by simp
  have len0: "length (history (init_wstate :: py_float wstate)) = 0" by (simp add: init_wstate_def)
  have "m < length (history (init_wstate :: py_float wstate)) + fuel * BATCH_SIZE"
    using fuel_enough[OF assms(2) m(3)] by simp
  then obtain e s' where r: "loop_safe fuel env init_wstate = Some (e, s')"
    using loop_safe_terminates[OF at_head_init, of m fuel env] set m(1) len0 by fastforce
  note f = loop_safe_result[OF r at_head_init]
  have "\<not> m < length (history s')"
  proof
    assume "m < length (history s')"
    then have "\<not> is_set env m" using f m(1) len0 by simp
    then show False using set by simp
  qed
  then show ?thesis using r m(3) by auto
qed

lemma loop_matrix_stops:
  assumes "\<forall>t\<ge>T. is_set env t" "T < fuel"
  shows "\<exists>e s'. loop_matrix fuel env init_dstate = Some (e, s') \<and> local_count s' \<le> T"
proof -
  have c0: "local_count init_dstate = 0" by (simp add: init_dstate_def)
  obtain e s' where r: "loop_matrix fuel env init_dstate = Some (e, s')"
    using loop_matrix_terminates[OF dense_inv_init(1), of T fuel env] assms c0 by fastforce
  note f = loop_matrix_result[OF r dense_inv_init(1)]
  have "\<not> T < local_count s'"
  proof
    assume "T < local_count s'"
    then have "\<not> is_set env T" using f c0 by simp
    then show False using assms(1) by simp
  qed
  then show ?thesis using r by auto
qed

lemma loop_numpy_stops:
  assumes "\<forall>t\<ge>T. is_set env t" "T < fuel"
  shows "\<exists>e s'. loop_numpy fuel env init_dstate = Some (e, s') \<and> local_count s' \<le> T"
proof -
  have c0: "local_count init_dstate = 0" by (simp add: init_dstate_def)
  obtain e s' where r: "loop_numpy fuel env init_dstate = Some (e, s')"
    using loop_numpy_terminates[OF dense_inv_init(1), of T fuel env] assms c0 by fastforce
  note f = loop_numpy_result[OF r dense_inv_init(1)]
  have "\<not> T < local_count s'"
  proof
    assume "T < local_count s'"
    then have "\<not> is_set env T" using f c0 by simp
    then show False using assms(1) by simp
  qed
  then show ?thesis using r by auto
qed

lemma burn_unlimited: "\<forall>i. alloc_ok env i \<Longrightarrow> burn fuel env n = None"
  by (induction fuel arbitrary: n) simp_all

lemma burn_limited:
  "\<forall>i<k. alloc_ok env i \<Longrightarrow> \<not> alloc_ok env k \<Longrightarrow> n \<le> k \<Longrightarrow> k - n < fuel \<Longrightarrow>
   burn fuel env n = Some (MemoryError, k)"
proof (induction fuel arbitrary: n)
  case 0
  then show ?case by simp
next
  case (Suc fuel)
  show ?case
  proof (cases "n = k")
    case True
    then show ?thesis using Suc.prems by simp
  next
    case False
    then have "n < k" using Suc.prems by simp
    then have "alloc_ok env n" "n + 1 \<le> k" "k - (n + 1) < fuel" using Suc.prems by auto
    then show ?thesis using Suc.IH[of "n + 1"] Suc.prems by simp
  qed
qed





section \<open>Runs of the workers on concrete environments\<close>





lemma stopped_at_once:
  "fibonacci_worker_safe 1 \<lparr>is_set = always_set, alloc_ok = unlimited_memory\<rparr> init_shared =
     Some (init_shared, init_wstate)"
  "fibonacci_worker_real 1 \<lparr>is_set = always_set, alloc_ok = unlimited_memory\<rparr> init_shared =
     Some (init_shared, init_wstate)"
  "matrix_worker 1 \<lparr>is_set = always_set, alloc_ok = unlimited_memory\<rparr> init_shared =
     Some (init_shared, init_dstate)"
  "numpy_stress_worker 1 \<lparr>is_set = always_set, alloc_ok = unlimited_memory\<rparr> init_shared =
     Some (init_shared, init_dstate)"
  by (simp_all add: fibonacci_worker_safe_def fibonacci_worker_real_def matrix_worker_def
      numpy_stress_worker_def flush_def init_wstate_def init_dstate_def init_shared_def
      always_set_def Let_def)

section \<open>Claims about the workers\<close>

text \<open>
  Claim C3, as stated for every worker variant, fails for \<^verbatim>\<open>burn\<close> of d.py, which takes
  no stop event. With the event set from the start and memory without limit it never
  leaves its loop; with memory for 100000 chunks it makes 100000 passes, twice the batch
  size, and ends by the \<^verbatim>\<open>MemoryError\<close>, not by the event.
\<close>

theorem burn_ignores_stop_event:
  "(\<forall>fuel. burn fuel \<lparr>is_set = always_set, alloc_ok = unlimited_memory\<rparr> 0 = None) \<and>
   burn 100001 \<lparr>is_set = always_set, alloc_ok = memory_for 100000\<rparr> 0 = Some (MemoryError, 100000)"
proof -
  have "burn 100001 \<lparr>is_set = always_set, alloc_ok = memory_for 100000\<rparr> 0 = Some (MemoryError, 100000)"
    by (rule burn_limited) (simp_all add: memory_for_def)
  then show ?thesis by (simp add: burn_unlimited unlimited_memory_def)
qed

text \<open>
  Claim C3, amended to the workers that take the stop event. If the event reads set from
  the moment the worker has completed \<open>T\<close> passes, the worker returns (given fuel for
  \<open>T + 1\<close> turns of its \<^verbatim>\<open>while\<close> loop): \<^verbatim>\<open>fibonacci_worker_safe\<close> and
  \<^verbatim>\<open>fibonacci_worker_real\<close> with fewer than \<open>T + BATCH_SIZE\<close> passes completed, so
  within one batch of the signal; \<^verbatim>\<open>matrix_worker\<close> and \<^verbatim>\<open>numpy_stress_worker\<close>
  with at most \<open>T\<close> passes completed, the pass in flight being the last.
\<close>

theorem workers_exit_within_one_batch_of_stop:
  assumes "\<forall>t\<ge>T. is_set env t" and "T < fuel"
  shows "(\<exists>sh' s. fibonacci_worker_safe fuel env sh = Some (sh', s) \<and> length (history s) < T + BATCH_SIZE) \<and>
         (\<exists>sh' s. fibonacci_worker_real fuel env sh = Some (sh', s) \<and> length (history s) < T + BATCH_SIZE) \<and>
         (\<exists>sh' s. matrix_worker fuel env sh = Some (sh', s) \<and> local_count s \<le> T) \<and>
         (\<exists>sh' s. numpy_stress_worker fuel env sh = Some (sh', s) \<and> local_count s \<le> T)"
  using loop_safe_stops[OF assms] loop_real_stops[OF assms] loop_matrix_stops[OF assms]
    loop_numpy_stops[OF assms]
  by (auto simp: fibonacci_worker_safe_def fibonacci_worker_real_def matrix_worker_def
      numpy_stress_worker_def Let_def)

theorem workers_exit_within_one_batch_of_stop_witness:
  "(\<exists>sh' s. fibonacci_worker_safe 4 \<lparr>is_set = set_from 3, alloc_ok = unlimited_memory\<rparr> init_shared
        = Some (sh', s) \<and> length (history s) < 3 + BATCH_SIZE) \<and>
   (\<exists>sh' s. fibonacci_worker_real 4 \<lparr>is_set = set_from 3, alloc_ok = unlimited_memory\<rparr> init_shared
        = Some (sh', s) \<and> length (history s) < 3 + BATCH_SIZE) \<and>
   (\<exists>sh' s. matrix_worker 4 \<lparr>is_set = set_from 3, alloc_ok = unlimited_memory\<rparr> init_shared
        = Some (sh', s) \<and> local_count s \<le> 3) \<and>
   (\<exists>sh' s. numpy_stress_worker 4 \<lparr>is_set = set_from 3, alloc_ok = unlimited_memory\<rparr> init_shared
        = Some (sh', s) \<and> local_count s \<le> 3) \<and>
   fibonacci_worker_safe 1 \<lparr>is_set = always_set, alloc_ok = unlimited_memory\<rparr> init_shared =
     Some (init_shared, init_wstate) \<and>
   matrix_worker 1 \<lparr>is_set = always_set, alloc_ok = unlimited_memory\<rparr> init_shared =
     Some (init_shared, init_dstate)"
proof -
  have h: "\<forall>t\<ge>3. is_set \<lparr>is_set = set_from 3, alloc_ok = unlimited_memory\<rparr> t" "(3::nat) < 4"
    by (simp_all add: set_from_def)
  show ?thesis
    using workers_exit_within_one_batch_of_stop [OF h, of init_shared] stopped_at_once
    by simp
qed





end
